theory Spec2Isabelle
  imports Complex_Main
begin

section \<open>The remote services and the clock\<close>

text \<open>
  The helpers of the repository talk to AWS through SDK clients and read the clock with
  \<open>Date.now()\<close>. Each \<open>await client.send(command)\<close> is one request: it takes some
  number of milliseconds and either resolves with a response object or rejects. The commands
  are the four the modelled functions build.
\<close>

datatype command =
    ReceiveMessageCommand string nat nat
  | DeleteMessageCommand string "string option"
  | SendMessageCommand string string
  | FilterLogEventsCommand string string int int

text \<open>
  \<open>ReceiveMessageCommand QueueUrl MaxNumberOfMessages WaitTimeSeconds\<close>,
  \<open>DeleteMessageCommand QueueUrl ReceiptHandle\<close> (the handle is read off a received message
  and may be undefined), \<open>SendMessageCommand QueueUrl MessageBody\<close> (the optional
  \<open>MessageAttributes\<close> are passed through untouched and are left out), and
  \<open>FilterLogEventsCommand logGroupName filterPattern startTime endTime\<close>.
\<close>

record Message =
  ReceiptHandle :: "string option"
  Body :: "string option"

record FilteredLogEvent =
  timestamp :: "int option"
  message :: "string option"

text \<open>
  A response object. JavaScript reads any property off any object, so one record carries
  the three properties the helpers read; a property that is absent is \<open>None\<close>.
\<close>

record response =
  Messages :: "Message list option"
  MessageId :: "string option"
  events :: "FilteredLogEvent list option"

text \<open>
  What a function can throw: \<open>Error m\<close> is \<open>new Error(m)\<close> thrown by the helper itself,
  \<open>Rejected e\<close> is whatever the SDK client's \<open>send\<close> rejected with.
\<close>

datatype thrown = Error string | Rejected string

text \<open>
  The world a helper runs in: the value \<open>Date.now()\<close> returns, in milliseconds, and the
  requests sent so far, each with the time it was sent at.
\<close>

record world =
  now :: int
  sent :: "(int \<times> command) list"

text \<open>
  The remote side is any function from the number of requests sent before and the command
  to the time the request takes and its outcome. Nothing is assumed about it.
\<close>

type_synonym remote = "nat \<Rightarrow> command \<Rightarrow> nat \<times> (thrown + response)"

definition send :: "remote \<Rightarrow> command \<Rightarrow> world \<Rightarrow> (thrown + response) \<times> world" where
  "send R c w =
     (case R (length (sent w)) c of
        (d, r) \<Rightarrow> (r, w\<lparr>now := now w + int d, sent := sent w @ [(now w, c)]\<rparr>))"

text \<open>
  \<open>await new Promise(resolve => setTimeout(resolve, ms))\<close>: the timer is taken to fire
  exactly on time.
\<close>

definition setTimeout :: "int \<Rightarrow> world \<Rightarrow> world" where
  "setTimeout ms w = w\<lparr>now := now w + ms\<rparr>"

text \<open>
  For stating what a run did, in terms of the remote side alone: the outcomes of a list of
  commands sent one after the other from \<open>w\<close>, whether all of them were answered, and the
  world after them.
\<close>

primrec replies :: "remote \<Rightarrow> command list \<Rightarrow> world \<Rightarrow> (thrown + response) list" where
  "replies R [] w = []"
| "replies R (c # cs) w = fst (send R c w) # replies R cs (snd (send R c w))"

primrec after_sends :: "remote \<Rightarrow> command list \<Rightarrow> world \<Rightarrow> world" where
  "after_sends R [] w = w"
| "after_sends R (c # cs) w = after_sends R cs (snd (send R c w))"

definition answered :: "thrown + response \<Rightarrow> bool" where
  "answered r = (case r of Inl e \<Rightarrow> False | Inr resp \<Rightarrow> True)"

definition accepts :: "remote \<Rightarrow> command list \<Rightarrow> world \<Rightarrow> bool" where
  "accepts R cs w = list_all answered (replies R cs w)"

text \<open>The batch a response to a read carries, and the id a response to a send carries.\<close>

definition batch_of :: "thrown + response \<Rightarrow> Message list" where
  "batch_of r =
     (case r of Inl e \<Rightarrow> [] | Inr resp \<Rightarrow> (case Messages resp of None \<Rightarrow> [] | Some ms \<Rightarrow> ms))"

definition id_of :: "thrown + response \<Rightarrow> string" where
  "id_of r =
     (case r of Inl e \<Rightarrow> '''' | Inr resp \<Rightarrow> (case MessageId resp of None \<Rightarrow> '''' | Some i \<Rightarrow> i))"

section \<open>Numbers as text\<close>

text \<open>
  A whole number interpolated into a template literal, or turned to text by
  \<open>toString()\<close>, is its decimal numeral, with a minus sign when negative.
\<close>

definition digit :: "nat \<Rightarrow> char" where
  "digit d = ''0123456789'' ! d"

fun show_nat :: "nat \<Rightarrow> string" where
  "show_nat n = (if n < 10 then [digit n] else show_nat (n div 10) @ [digit (n mod 10)])"

declare show_nat.simps [simp del]

definition show_int :: "int \<Rightarrow> string" where
  "show_int i = (if i < 0 then CHR ''-'' # show_nat (nat (- i)) else show_nat (nat i))"

text \<open>Reading a decimal numeral back, digit by digit.\<close>

definition parse_nat :: "string \<Rightarrow> nat" where
  "parse_nat s = foldl (\<lambda>a c. 10 * a + (of_char c - 48)) 0 s"

definition parse_int :: "string \<Rightarrow> int" where
  "parse_int s =
     (case s of
        [] \<Rightarrow> 0
      | c # r \<Rightarrow> if c = CHR ''-'' then - int (parse_nat r) else int (parse_nat s))"

section \<open>CloudWatchLogsHelper.getLogEvents\<close>

record CloudWatchLogFilter =
  filterPattern :: string
  startTime :: int

function getLogEvents_loop ::
  "remote \<Rightarrow> string \<Rightarrow> CloudWatchLogFilter \<Rightarrow> int \<Rightarrow> int \<Rightarrow> world
     \<Rightarrow> (thrown + FilteredLogEvent list) \<times> world" where
  "getLogEvents_loop R lambdaFunction fltr startTime0 timeoutMs w =
     (if now w - startTime0 < timeoutMs then
        (let endTime = now w;
             cmd = FilterLogEventsCommand (''/aws/lambda/'' @ lambdaFunction)
                     (filterPattern fltr) (startTime fltr) endTime
         in case send R cmd w of
              (Inl e, w') \<Rightarrow> (Inl e, w')
            | (Inr resp, w') \<Rightarrow>
                (let evs = (case events resp of None \<Rightarrow> [] | Some es \<Rightarrow> es)
                 in if length evs > 0 then (Inr evs, w')
                    else getLogEvents_loop R lambdaFunction fltr startTime0 timeoutMs
                           (setTimeout 1000 w')))
      else (Inr [], w))"
  by pat_completeness auto
termination
  by (relation "measure (\<lambda>(R, lambdaFunction, fltr, startTime0, timeoutMs, w).
                   nat (startTime0 + timeoutMs - now w))")
     (auto simp: send_def setTimeout_def split: prod.splits)

declare getLogEvents_loop.simps [simp del]

definition getLogEvents ::
  "remote \<Rightarrow> string \<Rightarrow> CloudWatchLogFilter \<Rightarrow> world
     \<Rightarrow> (thrown + FilteredLogEvent list) \<times> world" where
  "getLogEvents R lambdaFunction fltr w =
     (let startTime0 = startTime fltr;
          timeoutMs = 30 * 1000
      in getLogEvents_loop R lambdaFunction fltr startTime0 timeoutMs w)"

text \<open>
  For stating what a run did: the request one iteration sends from \<open>w\<close>, the world after
  \<open>j\<close> iterations that found nothing (request, then the one-second sleep), and the outcome
  of the request that comes after them.
\<close>

definition query :: "remote \<Rightarrow> string \<Rightarrow> CloudWatchLogFilter \<Rightarrow> world \<Rightarrow> (thrown + response) \<times> world" where
  "query R lambdaFunction fltr w =
     send R (FilterLogEventsCommand (''/aws/lambda/'' @ lambdaFunction)
               (filterPattern fltr) (startTime fltr) (now w)) w"

primrec queries_after :: "remote \<Rightarrow> string \<Rightarrow> CloudWatchLogFilter \<Rightarrow> nat \<Rightarrow> world \<Rightarrow> world" where
  "queries_after R lambdaFunction fltr 0 w = w"
| "queries_after R lambdaFunction fltr (Suc j) w =
     queries_after R lambdaFunction fltr j (setTimeout 1000 (snd (query R lambdaFunction fltr w)))"

definition query_result ::
  "remote \<Rightarrow> string \<Rightarrow> CloudWatchLogFilter \<Rightarrow> nat \<Rightarrow> world \<Rightarrow> thrown + response" where
  "query_result R lambdaFunction fltr j w =
     fst (query R lambdaFunction fltr (queries_after R lambdaFunction fltr j w))"

definition no_events :: "response \<Rightarrow> bool" where
  "no_events resp = (case events resp of None \<Rightarrow> True | Some es \<Rightarrow> es = [])"

section \<open>waitForFile\<close>

text \<open>
  The file system as \<open>waitForFile\<close> sees it: the answer of each existence check, by the
  number of checks made before it and the path. The state is the clock and the checks made
  so far, each with its time. A check is taken to be instantaneous next to the 500 ms sleep.
\<close>

type_synonym filesystem = "nat \<Rightarrow> string \<Rightarrow> bool"

record fsworld =
  clock :: int
  probes :: "(int \<times> string) list"

definition fileExists :: "filesystem \<Rightarrow> string \<Rightarrow> fsworld \<Rightarrow> bool \<times> fsworld" where
  "fileExists F filePath w =
     (F (length (probes w)) filePath, w\<lparr>probes := probes w @ [(clock w, filePath)]\<rparr>)"

definition sleep :: "int \<Rightarrow> fsworld \<Rightarrow> fsworld" where
  "sleep ms w = w\<lparr>clock := clock w + ms\<rparr>"

text \<open>
  \<open>maxTries = timeoutMs / pollInterval\<close> is a division of JavaScript numbers, so it is
  a fraction when 500 does not divide \<open>timeoutMs\<close>; \<open>timeoutMs\<close> is a whole number of
  milliseconds. The loop counter \<open>i\<close> counts up from 0 and is compared with the fraction.
\<close>

function waitForFile_loop ::
  "filesystem \<Rightarrow> string \<Rightarrow> int \<Rightarrow> rat \<Rightarrow> nat \<Rightarrow> fsworld \<Rightarrow> bool \<times> fsworld" where
  "waitForFile_loop F filePath pollInterval maxTries i w =
     (if of_nat i < maxTries then
        (case fileExists F filePath w of
           (found, w') \<Rightarrow>
             if found then (True, w')
             else waitForFile_loop F filePath pollInterval maxTries (i + 1)
                    (sleep pollInterval w'))
      else (False, w))"
  by pat_completeness auto
termination
proof (relation "measure (\<lambda>(F, filePath, pollInterval, maxTries, i, w). nat \<lceil>maxTries\<rceil> - i)")
  show "wf (measure (\<lambda>(F, filePath, pollInterval, maxTries, i, w). nat \<lceil>maxTries\<rceil> - i))"
    by simp
next
  fix F :: filesystem and filePath :: string and pollInterval :: int and maxTries :: rat
    and i :: nat and w :: fsworld and x :: "bool \<times> fsworld" and found :: bool and w' :: fsworld
  assume "of_nat i < maxTries"
  then have "int i < \<lceil>maxTries\<rceil>"
    by (simp add: less_ceiling_iff)
  then show "((F, filePath, pollInterval, maxTries, i + 1, sleep pollInterval w'),
              (F, filePath, pollInterval, maxTries, i, w))
             \<in> measure (\<lambda>(F, filePath, pollInterval, maxTries, i, w). nat \<lceil>maxTries\<rceil> - i)"
    by simp
qed

declare waitForFile_loop.simps [simp del]

definition waitForFile :: "filesystem \<Rightarrow> string \<Rightarrow> int \<Rightarrow> fsworld \<Rightarrow> bool \<times> fsworld" where
  "waitForFile F filePath timeoutMs w =
     (let pollInterval = 500;
          maxTries = of_int timeoutMs / of_int pollInterval
      in waitForFile_loop F filePath pollInterval maxTries 0 w)"

section \<open>LambdaTestHelper: receiving and waiting\<close>

definition receiveMessages ::
  "remote \<Rightarrow> string \<Rightarrow> nat \<Rightarrow> world \<Rightarrow> (thrown + Message list) \<times> world" where
  "receiveMessages R queueUrl maxMessages w =
     (case send R (ReceiveMessageCommand queueUrl maxMessages 1) w of
        (Inl e, w') \<Rightarrow> (Inl e, w')
      | (Inr resp, w') \<Rightarrow>
          (Inr (case Messages resp of None \<Rightarrow> [] | Some ms \<Rightarrow> ms), w'))"

text \<open>
  The loop of \<open>waitForLambdaProcessing\<close>. It has no sleep of its own: when every read
  answers within the same millisecond and none has the expected length, it runs forever,
  which is the value \<open>None\<close>. \<open>maxMessages\<close> is left at its default 10.
\<close>

partial_function (option) waitForLambdaProcessing_loop ::
  "remote \<Rightarrow> string \<Rightarrow> int \<Rightarrow> int \<Rightarrow> int \<Rightarrow> world \<Rightarrow> ((thrown + unit) \<times> world) option" where
  "waitForLambdaProcessing_loop R queueUrl expectedMessageCount timeoutMs startTime0 w =
     (if now w - startTime0 < timeoutMs then
        (case receiveMessages R queueUrl 10 w of
           (Inl e, w') \<Rightarrow> Some (Inl e, w')
         | (Inr messages, w') \<Rightarrow>
             if int (length messages) = expectedMessageCount then Some (Inr (), w')
             else waitForLambdaProcessing_loop R queueUrl expectedMessageCount timeoutMs
                    startTime0 w')
      else Some (Inl (Error (''Timeout waiting for Lambda processing. Expected ''
                    @ show_int expectedMessageCount @ '' messages'')), w))"

declare waitForLambdaProcessing_loop.simps [code]

definition waitForLambdaProcessing ::
  "remote \<Rightarrow> string \<Rightarrow> int \<Rightarrow> int \<Rightarrow> world \<Rightarrow> ((thrown + unit) \<times> world) option" where
  "waitForLambdaProcessing R queueUrl expectedMessageCount timeoutMs w =
     (let startTime0 = now w;
          w1 = setTimeout 10000 w
      in waitForLambdaProcessing_loop R queueUrl expectedMessageCount timeoutMs startTime0 w1)"

text \<open>
  For stating what a run did: the world after \<open>j\<close> reads in a row from \<open>w\<close>, and the
  outcome of the read that comes after them.
\<close>

primrec reads_after :: "remote \<Rightarrow> string \<Rightarrow> nat \<Rightarrow> world \<Rightarrow> world" where
  "reads_after R queueUrl 0 w = w"
| "reads_after R queueUrl (Suc j) w =
     reads_after R queueUrl j (snd (receiveMessages R queueUrl 10 w))"

definition read_result :: "remote \<Rightarrow> string \<Rightarrow> nat \<Rightarrow> world \<Rightarrow> thrown + Message list" where
  "read_result R queueUrl j w = fst (receiveMessages R queueUrl 10 (reads_after R queueUrl j w))"

section \<open>LambdaTestHelper: purging the queue\<close>

definition deleteMessage ::
  "remote \<Rightarrow> string \<Rightarrow> string option \<Rightarrow> world \<Rightarrow> (thrown + unit) \<times> world" where
  "deleteMessage R queueUrl receiptHandle w =
     (case send R (DeleteMessageCommand queueUrl receiptHandle) w of
        (Inl e, w') \<Rightarrow> (Inl e, w')
      | (Inr resp, w') \<Rightarrow> (Inr (), w'))"

text \<open>The inner \<open>for (const message of messages)\<close> of \<open>purgeQueue\<close>.\<close>

fun purgeQueue_for ::
  "remote \<Rightarrow> string \<Rightarrow> Message list \<Rightarrow> world \<Rightarrow> (thrown + unit) \<times> world" where
  "purgeQueue_for R queueUrl [] w = (Inr (), w)"
| "purgeQueue_for R queueUrl (m # messages) w =
     (case deleteMessage R queueUrl (ReceiptHandle m) w of
        (Inl e, w') \<Rightarrow> (Inl e, w')
      | (Inr u, w') \<Rightarrow> purgeQueue_for R queueUrl messages w')"

text \<open>
  The \<open>while (messages.length > 0)\<close> of \<open>purgeQueue\<close>. It goes on for as long as the
  reads return entries: against a queue that never answers with an empty batch it does not
  end, which is the value \<open>None\<close>.
\<close>

partial_function (option) purgeQueue_while ::
  "remote \<Rightarrow> string \<Rightarrow> Message list \<Rightarrow> world \<Rightarrow> ((thrown + unit) \<times> world) option" where
  "purgeQueue_while R queueUrl messages w =
     (if length messages > 0 then
        (case purgeQueue_for R queueUrl messages w of
           (Inl e, w') \<Rightarrow> Some (Inl e, w')
         | (Inr u, w') \<Rightarrow>
             (case receiveMessages R queueUrl 10 w' of
                (Inl e, w'') \<Rightarrow> Some (Inl e, w'')
              | (Inr messages', w'') \<Rightarrow> purgeQueue_while R queueUrl messages' w''))
      else Some (Inr (), w))"

declare purgeQueue_while.simps [code]

definition purgeQueue :: "remote \<Rightarrow> string \<Rightarrow> world \<Rightarrow> ((thrown + unit) \<times> world) option" where
  "purgeQueue R queueUrl w =
     (case receiveMessages R queueUrl 10 w of
        (Inl e, w') \<Rightarrow> Some (Inl e, w')
      | (Inr messages, w') \<Rightarrow> purgeQueue_while R queueUrl messages w')"

text \<open>
  For stating what a run did, in terms of the remote side alone. The commands of one round
  over a batch are the read and one deletion for each message of the batch.
  \<open>serves R q bs w\<close> says how the remote answers a purge started in \<open>w\<close>: its reads
  return the batches \<open>bs\<close> in turn, none of them empty, every deletion is answered, and the
  read after the last batch returns no message.
\<close>

definition deletions :: "string \<Rightarrow> Message list \<Rightarrow> command list" where
  "deletions queueUrl ms = map (\<lambda>m. DeleteMessageCommand queueUrl (ReceiptHandle m)) ms"

definition round_commands :: "string \<Rightarrow> Message list \<Rightarrow> command list" where
  "round_commands queueUrl ms = ReceiveMessageCommand queueUrl 10 1 # deletions queueUrl ms"

primrec serves :: "remote \<Rightarrow> string \<Rightarrow> Message list list \<Rightarrow> world \<Rightarrow> bool" where
  "serves R queueUrl [] w =
     (answered (fst (send R (ReceiveMessageCommand queueUrl 10 1) w)) \<and>
      batch_of (fst (send R (ReceiveMessageCommand queueUrl 10 1) w)) = [])"
| "serves R queueUrl (ms # bs) w =
     (ms \<noteq> [] \<and>
      answered (fst (send R (ReceiveMessageCommand queueUrl 10 1) w)) \<and>
      batch_of (fst (send R (ReceiveMessageCommand queueUrl 10 1) w)) = ms \<and>
      accepts R (deletions queueUrl ms) (snd (send R (ReceiveMessageCommand queueUrl 10 1) w)) \<and>
      serves R queueUrl bs (after_sends R (round_commands queueUrl ms) w))"

section \<open>Sending messages and the load test\<close>

record SQSMessage =
  body :: string

definition sendMessage :: "remote \<Rightarrow> string \<Rightarrow> SQSMessage \<Rightarrow> world \<Rightarrow> (thrown + string) \<times> world" where
  "sendMessage R queueUrl m w =
     (case send R (SendMessageCommand queueUrl (body m)) w of
        (Inl e, w') \<Rightarrow> (Inl e, w')
      | (Inr resp, w') \<Rightarrow>
          (Inr (case MessageId resp of None \<Rightarrow> '''' | Some i \<Rightarrow> i), w'))"

text \<open>The \<open>for (const message of messages)\<close> of \<open>sendMessages\<close>, with the ids pushed so far.\<close>

fun sendMessages_for ::
  "remote \<Rightarrow> string \<Rightarrow> SQSMessage list \<Rightarrow> string list \<Rightarrow> world
     \<Rightarrow> (thrown + string list) \<times> world" where
  "sendMessages_for R queueUrl [] messageIds w = (Inr messageIds, w)"
| "sendMessages_for R queueUrl (m # messages) messageIds w =
     (case sendMessage R queueUrl m w of
        (Inl e, w') \<Rightarrow> (Inl e, w')
      | (Inr messageId, w') \<Rightarrow>
          sendMessages_for R queueUrl messages (messageIds @ [messageId]) w')"

definition sendMessages ::
  "remote \<Rightarrow> string \<Rightarrow> SQSMessage list \<Rightarrow> world \<Rightarrow> (thrown + string list) \<times> world" where
  "sendMessages R queueUrl messages w = sendMessages_for R queueUrl messages [] w"

text \<open>For stating what a run did: the requests that send the messages of a group, in order.\<close>

definition sends :: "string \<Rightarrow> SQSMessage list \<Rightarrow> command list" where
  "sends queueUrl ms = map (\<lambda>m. SendMessageCommand queueUrl (body m)) ms"

text \<open>
  The messages \<open>testLoadPerformance\<close> builds: message \<open>i\<close> has the body
  \<open>JSON.stringify({ id: i, timestamp: new Date().toISOString() })\<close>. The text of the
  timestamp read for message \<open>i\<close> is \<open>toISOString i\<close>.
\<close>

definition stringify_id_timestamp :: "nat \<Rightarrow> string \<Rightarrow> string" where
  \<open>stringify_id_timestamp i ts = ''{"id":'' @ show_nat i @ '',"timestamp":"'' @ ts @ ''"}''\<close>

definition testLoadPerformance_messages :: "(nat \<Rightarrow> string) \<Rightarrow> nat \<Rightarrow> SQSMessage list" where
  "testLoadPerformance_messages toISOString messageCount =
     map (\<lambda>i. \<lparr>body = stringify_id_timestamp i (toISOString i)\<rparr>) [0..<messageCount]"

text \<open>\<open>messages.slice(i, j)\<close> for \<open>0 \<le> i \<le> j\<close>.\<close>

definition slice :: "nat \<Rightarrow> nat \<Rightarrow> 'a list \<Rightarrow> 'a list" where
  "slice i j xs = take (j - i) (drop i xs)"

text \<open>
  The batching loop \<open>for (let i = 0; i < messageCount; i += batchSize)\<close>, with the batches
  pushed so far. The loop would not end with a batch size of 0 and \<open>i < messageCount\<close>.
\<close>

partial_function (option) testLoadPerformance_for ::
  "SQSMessage list \<Rightarrow> nat \<Rightarrow> nat \<Rightarrow> nat \<Rightarrow> SQSMessage list list \<Rightarrow> SQSMessage list list option" where
  "testLoadPerformance_for messages messageCount batchSize i batches =
     (if i < messageCount then
        testLoadPerformance_for messages messageCount batchSize (i + batchSize)
          (batches @ [slice i (i + batchSize) messages])
      else Some batches)"

declare testLoadPerformance_for.simps [code]

text \<open>
  The batches \<open>testLoadPerformance\<close> hands to \<open>sendMessages\<close>, one call per batch. The
  counts are natural numbers. With \<open>concurrencyLevel = 0\<close> the division gives \<open>Infinity\<close>
  (or \<open>NaN\<close> when \<open>messageCount\<close> is 0 too): the loop then makes one batch of all the
  messages (or none). The calls are started one after the other without being awaited, and
  \<open>Promise.all\<close> waits for them; how their requests interleave is not modelled.
\<close>

definition testLoadPerformance_batches ::
  "(nat \<Rightarrow> string) \<Rightarrow> nat \<Rightarrow> nat \<Rightarrow> SQSMessage list list option" where
  "testLoadPerformance_batches toISOString messageCount concurrencyLevel =
     (let messages = testLoadPerformance_messages toISOString messageCount
      in if concurrencyLevel = 0 then
           Some (if 0 < messageCount then [messages] else [])
         else
           (let batchSize = nat \<lceil>of_nat messageCount / of_nat concurrencyLevel :: rat\<rceil>
            in testLoadPerformance_for messages messageCount batchSize 0 []))"

section \<open>DynamoDBTestHelper.toDynamoFormat\<close>

text \<open>
  The values \<open>toDynamoFormat\<close> tells apart. A number is a value of the type \<open>'n\<close>, which
  is left open, and \<open>value.toString()\<close> is a parameter \<open>toString\<close> of the model: nothing
  is assumed about the numbers or about the text a number is written as.
  A record is the list of its own entries in the order \<open>Object.entries\<close> gives them.
  \<open>JOther\<close> stands for a value that is none of the others (a function, a symbol, a bigint).
\<close>

datatype 'n jsval =
    JString string
  | JNumber 'n
  | JBoolean bool
  | JArray "'n jsval list"
  | JObject "(string \<times> 'n jsval) list"
  | JNull
  | JUndefined
  | JOther

text \<open>The attribute values of the result: \<open>{ S: s }\<close>, \<open>{ N: s }\<close> and so on.\<close>

datatype attr =
    S string
  | N string
  | BOOL bool
  | L "attr list"
  | M "(string \<times> attr) list"
  | NULL bool

text \<open>
  \<open>result[key] = a\<close>, on the object that began as \<open>{}\<close> and with \<open>a\<close> an object, as
  every value assigned in \<open>toDynamoFormat\<close> is. The result is given by its own entries.
  For an ordinary key, an existing entry keeps its place and a new one goes last. The key
  \<open>__proto__\<close> is the accessor inherited from \<open>Object.prototype\<close>: the assignment makes
  \<open>a\<close> the prototype of \<open>result\<close> and adds no entry.
\<close>

fun put :: "string \<Rightarrow> 'v \<Rightarrow> (string \<times> 'v) list \<Rightarrow> (string \<times> 'v) list" where
  "put key a [] = [(key, a)]"
| "put key a ((k, b) # result) =
     (if key = k then (key, a) # result else (k, b) # put key a result)"

definition assign :: "string \<Rightarrow> 'v \<Rightarrow> (string \<times> 'v) list \<Rightarrow> (string \<times> 'v) list" where
  "assign key a result = (if key = ''__proto__'' then result else put key a result)"

text \<open>\<open>Object.entries\<close> of an array: its elements under their indices as keys.\<close>

definition array_entries :: "'n jsval list \<Rightarrow> (string \<times> 'n jsval) list" where
  "array_entries vs = zip (map show_nat [0..<length vs]) vs"

text \<open>
  \<open>toDynamoFormat_for\<close> is the loop over the entries, with the result so far;
  \<open>toDynamoFormat_map\<close> is the \<open>value.map(v => ...)\<close> over the elements of an array.
\<close>

function toDynamoFormat :: "('n \<Rightarrow> string) \<Rightarrow> (string \<times> 'n jsval) list \<Rightarrow> (string \<times> attr) list"
  and toDynamoFormat_for ::
    "('n \<Rightarrow> string) \<Rightarrow> (string \<times> 'n jsval) list \<Rightarrow> (string \<times> attr) list \<Rightarrow> (string \<times> attr) list"
  and toDynamoFormat_map :: "('n \<Rightarrow> string) \<Rightarrow> 'n jsval list \<Rightarrow> attr list" where
  "toDynamoFormat toString data = toDynamoFormat_for toString data []"
| "toDynamoFormat_for toString [] result = result"
| "toDynamoFormat_for toString ((key, v) # rest) result =
     toDynamoFormat_for toString rest
       (case v of
          JString s \<Rightarrow> assign key (S s) result
        | JNumber n \<Rightarrow> assign key (N (toString n)) result
        | JBoolean b \<Rightarrow> assign key (BOOL b) result
        | JArray vs \<Rightarrow> assign key (L (toDynamoFormat_map toString vs)) result
        | JObject kvs \<Rightarrow> assign key (M (toDynamoFormat toString kvs)) result
        | JNull \<Rightarrow> assign key (NULL True) result
        | JUndefined \<Rightarrow> assign key (NULL True) result
        | JOther \<Rightarrow> result)"
| "toDynamoFormat_map toString [] = []"
| "toDynamoFormat_map toString (v # vs) =
     (case v of
        JString s \<Rightarrow> S s
      | JNumber n \<Rightarrow> N (toString n)
      | JBoolean b \<Rightarrow> BOOL b
      | JArray ws \<Rightarrow> M (toDynamoFormat toString (array_entries ws))
      | JObject kvs \<Rightarrow> M (toDynamoFormat toString kvs)
      | JNull \<Rightarrow> NULL True
      | JUndefined \<Rightarrow> NULL True
      | JOther \<Rightarrow> NULL True) # toDynamoFormat_map toString vs"
  by pat_completeness auto
termination
proof -
  have A: "2 * size_list (\<lambda>(k, y). size y) kvs
             < Suc (Suc (Suc (2 * size_list (size_prod (\<lambda>x. 0) size) kvs + n)))"
    for kvs :: "(string \<times> 'n jsval) list" and n
    by (induction kvs) auto
  have zip: "length ks = length vs \<Longrightarrow> size_list (\<lambda>(k, y). size y) (zip ks vs) = size_list size vs"
    for ks :: "string list" and vs :: "'n jsval list"
    by (induction ks vs rule: list_induct2) simp_all
  have B: "size_list (\<lambda>(k, y). size y) (array_entries vs) = size_list size vs"
    for vs :: "'n jsval list"
    by (simp add: array_entries_def zip)
  show ?thesis
    by (relation "measure (\<lambda>x. case x of
          Inl (toString, data) \<Rightarrow> 2 * size_list (\<lambda>(k, v). size v) data + 1
        | Inr (Inl (toString, data, result)) \<Rightarrow> 2 * size_list (\<lambda>(k, v). size v) data
        | Inr (Inr (toString, vs)) \<Rightarrow> 2 * size_list size vs)")
       (simp_all add: A B)
qed

declare toDynamoFormat.simps [simp del]
declare toDynamoFormat_for.simps [simp del]
declare toDynamoFormat_map.simps [simp del]

text \<open>
  The encoding of one field and of one element of a list, in the words of the amended
  specification. A field is encoded by its kind: a string under the string tag, a number
  as text under the number tag, a boolean under the boolean tag, a list element by element
  under the list tag, a record under the map tag, null and absent under the null tag. An
  element of a list is encoded in the same way, except that an element that is itself a
  list goes under the map tag, as the record of its entries under their indices, and that
  an element of no kind of the table goes under the null tag. (A field of no kind of the
  table gets no entry; the value given for it is never used.)
\<close>

definition element_attr :: "('n \<Rightarrow> string) \<Rightarrow> 'n jsval \<Rightarrow> attr" where
  "element_attr toString v =
     (case v of
        JString s \<Rightarrow> S s
      | JNumber n \<Rightarrow> N (toString n)
      | JBoolean b \<Rightarrow> BOOL b
      | JArray ws \<Rightarrow> M (toDynamoFormat toString (array_entries ws))
      | JObject kvs \<Rightarrow> M (toDynamoFormat toString kvs)
      | _ \<Rightarrow> NULL True)"

definition field_attr :: "('n \<Rightarrow> string) \<Rightarrow> 'n jsval \<Rightarrow> attr" where
  "field_attr toString v =
     (case v of
        JArray vs \<Rightarrow> L (map (element_attr toString) vs)
      | _ \<Rightarrow> element_attr toString v)"

definition has_entry :: "string \<times> 'n jsval \<Rightarrow> bool" where
  "has_entry kv = (fst kv \<noteq> ''__proto__'' \<and> snd kv \<noteq> JOther)"

text \<open>
  The tag table of the specification, read as an encoder of values: strings under the string
  tag, numbers as text under the number tag, booleans under the boolean tag, lists
  element by element under the list tag, records entry by entry under the map tag, null and
  absent values under the null tag. (\<open>JOther\<close> has no row; the value given is never used.)
\<close>

fun tag_table :: "('n \<Rightarrow> string) \<Rightarrow> 'n jsval \<Rightarrow> attr" where
  "tag_table toString (JString s) = S s"
| "tag_table toString (JNumber n) = N (toString n)"
| "tag_table toString (JBoolean b) = BOOL b"
| "tag_table toString (JArray vs) = L (map (tag_table toString) vs)"
| "tag_table toString (JObject kvs) = M (map (\<lambda>(k, v). (k, tag_table toString v)) kvs)"
| "tag_table toString JNull = NULL True"
| "tag_table toString JUndefined = NULL True"
| "tag_table toString JOther = NULL True"

definition tag_record :: "('n \<Rightarrow> string) \<Rightarrow> (string \<times> 'n jsval) list \<Rightarrow> (string \<times> attr) list" where
  "tag_record toString data = map (\<lambda>(k, v). (k, tag_table toString v)) data"

text \<open>
  The values the table is checked on: built from the table's kinds, every record with
  distinct keys none of which is \<open>__proto__\<close>, and no list directly inside a list.
\<close>

definition is_list :: "'n jsval \<Rightarrow> bool" where
  "is_list v = (case v of JArray vs \<Rightarrow> True | _ \<Rightarrow> False)"

fun in_table :: "'n jsval \<Rightarrow> bool" where
  "in_table (JArray vs) = list_all (\<lambda>v. in_table v \<and> \<not> is_list v) vs"
| "in_table (JObject kvs) =
     (distinct (map fst kvs) \<and> list_all (\<lambda>(k, v). k \<noteq> ''__proto__'' \<and> in_table v) kvs)"
| "in_table JOther = False"
| "in_table v = True"

definition record_in_table :: "(string \<times> 'n jsval) list \<Rightarrow> bool" where
  "record_in_table data = in_table (JObject data)"

text \<open>Values with no \<open>undefined\<close> in them.\<close>

fun no_undefined :: "'n jsval \<Rightarrow> bool" where
  "no_undefined (JArray vs) = list_all no_undefined vs"
| "no_undefined (JObject kvs) = list_all (\<lambda>(k, v). no_undefined v) kvs"
| "no_undefined JUndefined = False"
| "no_undefined v = True"

text \<open>
  Values all of whose numbers are read back from their text by \<open>parse\<close>. (Of the numbers
  of JavaScript, \<open>NaN\<close> is not: it is equal to no number.)
\<close>

fun reads_back :: "('n \<Rightarrow> string) \<Rightarrow> (string \<Rightarrow> 'n) \<Rightarrow> 'n jsval \<Rightarrow> bool" where
  "reads_back toString parse (JNumber n) = (parse (toString n) = n)"
| "reads_back toString parse (JArray vs) = list_all (reads_back toString parse) vs"
| "reads_back toString parse (JObject kvs) = list_all (\<lambda>(k, v). reads_back toString parse v) kvs"
| "reads_back toString parse v = True"

text \<open>
  Modelled from the spec: the repository has no decoder for the attribute format. This is
  the reader the round-trip property of the specification needs, the tag table read from
  right to left: the string tag gives a string, the number tag the number its text denotes
  (read by \<open>parse\<close>, a parameter as \<open>toString\<close> is), the boolean tag a boolean, the list
  tag a list, the map tag a record, the null tag null.
\<close>

fun decode :: "(string \<Rightarrow> 'n) \<Rightarrow> attr \<Rightarrow> 'n jsval" where
  "decode parse (S s) = JString s"
| "decode parse (N s) = JNumber (parse s)"
| "decode parse (BOOL b) = JBoolean b"
| "decode parse (L as) = JArray (map (decode parse) as)"
| "decode parse (M kas) = JObject (map (\<lambda>(k, a). (k, decode parse a)) kas)"
| "decode parse (NULL b) = JNull"

definition fromDynamoFormat :: "(string \<Rightarrow> 'n) \<Rightarrow> (string \<times> attr) list \<Rightarrow> (string \<times> 'n jsval) list" where
  "fromDynamoFormat parse item = map (\<lambda>(k, a). (k, decode parse a)) item"

section \<open>Sample environments\<close>

text \<open>Concrete file systems and remote services, for evaluating the functions.\<close>

definition always_there :: filesystem where
  "always_there k p = True"

definition never_there :: filesystem where
  "never_there k p = False"

definition there_from :: "nat \<Rightarrow> filesystem" where
  "there_from n k p = (n \<le> k)"

definition fs0 :: fsworld where
  "fs0 = \<lparr>clock = 0, probes = []\<rparr>"

definition w0 :: world where
  "w0 = \<lparr>now = 0, sent = []\<rparr>"

definition msg :: Message where
  "msg = \<lparr>ReceiptHandle = Some ''h'', Body = Some ''ping''\<rparr>"

text \<open>A queue that answers every request after one second with \<open>m\<close> messages.\<close>

definition holding :: "nat \<Rightarrow> remote" where
  "holding m k c = (1000, Inr \<lparr>Messages = Some (replicate m msg), MessageId = None, events = None\<rparr>)"

text \<open>
  A queue that answers after one second: with one message to the first \<open>k0\<close> requests,
  with none after that.
\<close>

definition drained_from :: "nat \<Rightarrow> remote" where
  "drained_from k0 k c =
     (1000, Inr \<lparr>Messages = (if k < k0 then Some [msg] else None), MessageId = None, events = None\<rparr>)"

text \<open>A service whose request number \<open>k0\<close> is rejected; the others hold one message and no log event.\<close>

definition failing_at :: "nat \<Rightarrow> remote" where
  "failing_at k0 k c =
     (1000, if k = k0 then Inl (Rejected ''NetworkingError'')
            else Inr \<lparr>Messages = Some [msg], MessageId = None, events = Some []\<rparr>)"

definition ev :: FilteredLogEvent where
  "ev = \<lparr>timestamp = Some 1500, message = Some ''hello-test-42''\<rparr>"

text \<open>
  A log store that answers after 200 ms: with no event to the first \<open>k0\<close> requests, with
  one event after that.
\<close>

definition logged_from :: "nat \<Rightarrow> remote" where
  "logged_from k0 k c =
     (200, Inr \<lparr>Messages = None, MessageId = None, events = (if k < k0 then Some [] else Some [ev])\<rparr>)"

definition flt :: CloudWatchLogFilter where
  "flt = \<lparr>filterPattern = ''hello-test-42'', startTime = 0\<rparr>"

text \<open>A clock text for the load test's messages, and a queue that accepts every message.\<close>

definition iso0 :: "nat \<Rightarrow> string" where
  "iso0 i = ''2024-01-01T00:00:00.000Z''"

definition accepting :: remote where
  "accepting k c = (50, Inr \<lparr>Messages = None, MessageId = Some (show_nat k), events = None\<rparr>)"

text \<open>A record with a value of each primitive kind, a list and a nested record.\<close>

definition item :: "(string \<times> int jsval) list" where
  "item = [(''poc_id'', JString ''demo1''), (''age'', JNumber 42), (''active'', JBoolean True),
           (''note'', JNull), (''tags'', JArray [JString ''a'', JNumber (- 7)]),
           (''address'', JObject [(''zip'', JNumber 1000)])]"

text \<open>
  A record whose second field has the key \<open>__proto__\<close>, whose third is a function, and
  whose last is a list holding a list.
\<close>

definition odd_item :: "(string \<times> int jsval) list" where
  "odd_item = [(''id'', JString ''a''), (''__proto__'', JString ''x''), (''f'', JOther),
               (''m'', JArray [JArray [JNumber 1, JNumber 2], JNumber 3, JOther])]"

section \<open>Properties\<close>

subsection \<open>Numerals\<close>

lemma of_char_digit: "d < 10 \<Longrightarrow> of_char (digit d) = 48 + d"
proof -
  assume "d < 10"
  then have "d = 0 \<or> d = 1 \<or> d = 2 \<or> d = 3 \<or> d = 4 \<or> d = 5 \<or> d = 6 \<or> d = 7 \<or> d = 8 \<or> d = 9"
    by arith
  then show ?thesis
    by (elim disjE) (simp_all add: digit_def)
qed

lemma digit_not_minus: "d < 10 \<Longrightarrow> digit d \<noteq> CHR ''-''"
  using of_char_digit [of d] by (auto simp: of_char_eq_iff [symmetric, where ?'a = nat] simp del: of_char_eq_iff)

lemma digit_not_comma: "d < 10 \<Longrightarrow> digit d \<noteq> CHR '',''"
  using of_char_digit [of d] by (auto simp: of_char_eq_iff [symmetric, where ?'a = nat] simp del: of_char_eq_iff)

lemma parse_nat_snoc: "parse_nat (s @ [c]) = 10 * parse_nat s + (of_char c - 48)"
  by (simp add: parse_nat_def)

lemma parse_show_nat: "parse_nat (show_nat n) = n"
proof (induction n rule: show_nat.induct)
  case (1 n)
  show ?case
  proof (cases "n < 10")
    case True
    then show ?thesis
      by (simp add: show_nat.simps [of n] parse_nat_def of_char_digit)
  next
    case False
    with "1.IH" have "parse_nat (show_nat (n div 10)) = n div 10"
      by simp
    with False show ?thesis
      by (simp add: show_nat.simps [of n] parse_nat_snoc of_char_digit)
  qed
qed

lemma show_nat_inj: "show_nat m = show_nat n \<Longrightarrow> m = n"
  by (metis parse_show_nat)

lemma show_nat_digits: "c \<in> set (show_nat n) \<Longrightarrow> \<exists>d<10. c = digit d"
proof (induction n rule: show_nat.induct)
  case (1 n)
  show ?case
  proof (cases "n < 10")
    case True
    with "1.prems" show ?thesis
      by (auto simp: show_nat.simps [of n])
  next
    case False
    with "1.prems" have "c \<in> set (show_nat (n div 10)) \<or> c = digit (n mod 10)"
      by (auto simp: show_nat.simps [of n])
    then show ?thesis
    proof
      assume "c \<in> set (show_nat (n div 10))"
      with False show ?thesis
        using "1.IH" by blast
    next
      assume "c = digit (n mod 10)"
      moreover have "n mod 10 < 10" by simp
      ultimately show ?thesis by blast
    qed
  qed
qed

lemma show_nat_not_Nil: "show_nat n \<noteq> []"
  by (subst show_nat.simps) simp

lemma parse_show_int: "parse_int (show_int i) = i"
proof (cases "i < 0")
  case True
  then show ?thesis
    by (simp add: show_int_def parse_int_def parse_show_nat)
next
  case False
  obtain c r where cr: "show_nat (nat i) = c # r"
    using show_nat_not_Nil [of "nat i"] by (cases "show_nat (nat i)") auto
  then have "c \<in> set (show_nat (nat i))"
    by simp
  then obtain d where "d < 10" "c = digit d"
    using show_nat_digits by blast
  then have "c \<noteq> CHR ''-''"
    by (simp add: digit_not_minus)
  with False cr show ?thesis
    using parse_show_nat [of "nat i"] by (simp add: show_int_def parse_int_def)
qed

lemma show_int_inj: "show_int i = show_int j \<Longrightarrow> i = j"
  by (metis parse_show_int)

subsection \<open>Sequences of requests\<close>

lemma after_sends_append:
  "after_sends R (cs @ ds) w = after_sends R ds (after_sends R cs w)"
  by (induction cs arbitrary: w) simp_all

lemma commands_after_sends:
  "map snd (sent (after_sends R cs w)) = map snd (sent w) @ cs"
proof (induction cs arbitrary: w)
  case Nil
  show ?case by simp
next
  case (Cons c cs)
  have "map snd (sent (snd (send R c w))) = map snd (sent w) @ [c]"
    by (simp add: send_def split: prod.splits)
  with Cons [of "snd (send R c w)"] show ?case
    by simp
qed

lemma length_sent_after_sends:
  "length (sent (after_sends R cs w)) = length (sent w) + length cs"
  using commands_after_sends [of R cs w, THEN arg_cong, of length] by simp

lemma answered_iff: "answered r \<longleftrightarrow> (\<exists>resp. r = Inr resp)"
  by (cases r) (simp_all add: answered_def)

lemma receiveMessages_answered:
  assumes "answered (fst (send R (ReceiveMessageCommand q k 1) w))"
  shows "receiveMessages R q k w =
           (Inr (batch_of (fst (send R (ReceiveMessageCommand q k 1) w))),
            snd (send R (ReceiveMessageCommand q k 1) w))"
proof -
  obtain r w' where s: "send R (ReceiveMessageCommand q k 1) w = (r, w')"
    by (cases "send R (ReceiveMessageCommand q k 1) w")
  with assms obtain resp where "r = Inr resp"
    by (auto simp: answered_iff)
  with s show ?thesis
    by (simp add: receiveMessages_def batch_of_def)
qed

lemma receiveMessages_rejected:
  assumes "fst (send R (ReceiveMessageCommand q k 1) w) = Inl e"
  shows "receiveMessages R q k w = (Inl e, snd (send R (ReceiveMessageCommand q k 1) w))"
proof -
  obtain r w' where s: "send R (ReceiveMessageCommand q k 1) w = (r, w')"
    by (cases "send R (ReceiveMessageCommand q k 1) w")
  with assms show ?thesis
    by (simp add: receiveMessages_def)
qed

lemma snd_receiveMessages:
  "snd (receiveMessages R q k w) = snd (send R (ReceiveMessageCommand q k 1) w)"
  by (simp add: receiveMessages_def split: prod.splits sum.splits)

subsection \<open>Querying the logs\<close>

lemma now_query:
  "now (snd (query R fn f w)) =
     now w + int (fst (R (length (sent w))
       (FilterLogEventsCommand (''/aws/lambda/'' @ fn) (filterPattern f) (startTime f) (now w))))"
  by (simp add: query_def send_def split: prod.splits)

lemma sent_query:
  "sent (snd (query R fn f w)) =
     sent w @ [(now w, FilterLogEventsCommand (''/aws/lambda/'' @ fn) (filterPattern f)
                         (startTime f) (now w))]"
  by (simp add: query_def send_def split: prod.splits)

lemma queries_after_Suc:
  "queries_after R fn f (Suc j) w =
     setTimeout 1000 (snd (query R fn f (queries_after R fn f j w)))"
  by (induction j arbitrary: w) simp_all

lemma now_queries_after_Suc:
  "now (queries_after R fn f j w) + 1000 \<le> now (queries_after R fn f (Suc j) w)"
  by (simp add: queries_after_Suc now_query setTimeout_def del: queries_after.simps)

lemma sent_queries_after:
  "sent (queries_after R fn f j w) =
     sent w @ map (\<lambda>i. (now (queries_after R fn f i w),
                         FilterLogEventsCommand (''/aws/lambda/'' @ fn) (filterPattern f)
                           (startTime f) (now (queries_after R fn f i w)))) [0..<j]"
proof (induction j)
  case 0
  show ?case by simp
next
  case (Suc j)
  then show ?case
    by (simp add: queries_after_Suc sent_query setTimeout_def del: queries_after.simps)
qed

lemma logs_continue:
  assumes "now w - t0 < T"
    and "fst (query R fn f w) = Inr resp"
    and "no_events resp"
  shows "getLogEvents_loop R fn f t0 T w =
         getLogEvents_loop R fn f t0 T (setTimeout 1000 (snd (query R fn f w)))"
proof -
  obtain r w' where "query R fn f w = (r, w')"
    by (cases "query R fn f w")
  with assms show ?thesis
    by (subst getLogEvents_loop.simps)
       (auto simp: query_def no_events_def split: option.splits)
qed

lemma logs_found:
  assumes "now w - t0 < T"
    and "fst (query R fn f w) = Inr resp"
    and "events resp = Some evs"
    and "evs \<noteq> []"
  shows "getLogEvents_loop R fn f t0 T w = (Inr evs, snd (query R fn f w))"
proof -
  obtain r w' where "query R fn f w = (r, w')"
    by (cases "query R fn f w")
  with assms show ?thesis
    by (subst getLogEvents_loop.simps) (auto simp: query_def)
qed

lemma logs_reject:
  assumes "now w - t0 < T"
    and "fst (query R fn f w) = Inl e"
  shows "getLogEvents_loop R fn f t0 T w = (Inl e, snd (query R fn f w))"
proof -
  obtain r w' where "query R fn f w = (r, w')"
    by (cases "query R fn f w")
  with assms show ?thesis
    by (subst getLogEvents_loop.simps) (auto simp: query_def)
qed

lemma logs_deadline:
  assumes "\<not> now w - t0 < T"
  shows "getLogEvents_loop R fn f t0 T w = (Inr [], w)"
  using assms by (subst getLogEvents_loop.simps) simp

lemma logs_skip:
  assumes "\<forall>i<j. now (queries_after R fn f i w) - t0 < T \<and>
             (\<exists>resp. query_result R fn f i w = Inr resp \<and> no_events resp)"
  shows "getLogEvents_loop R fn f t0 T w =
         getLogEvents_loop R fn f t0 T (queries_after R fn f j w)"
  using assms
proof (induction j arbitrary: w)
  case 0
  show ?case by simp
next
  case (Suc j)
  let ?w1 = "setTimeout 1000 (snd (query R fn f w))"
  from Suc.prems have "now (queries_after R fn f 0 w) - t0 < T \<and>
      (\<exists>resp. query_result R fn f 0 w = Inr resp \<and> no_events resp)"
    by blast
  then obtain resp where first: "now w - t0 < T" "fst (query R fn f w) = Inr resp"
      "no_events resp"
    by (auto simp: query_result_def)
  have rest: "\<forall>i<j. now (queries_after R fn f i ?w1) - t0 < T \<and>
             (\<exists>resp. query_result R fn f i ?w1 = Inr resp \<and> no_events resp)"
  proof (intro allI impI)
    fix i assume "i < j"
    then have "Suc i < Suc j" by simp
    with Suc.prems have "now (queries_after R fn f (Suc i) w) - t0 < T \<and>
             (\<exists>resp. query_result R fn f (Suc i) w = Inr resp \<and> no_events resp)"
      by blast
    then show "now (queries_after R fn f i ?w1) - t0 < T \<and>
             (\<exists>resp. query_result R fn f i ?w1 = Inr resp \<and> no_events resp)"
      by (simp add: query_result_def)
  qed
  have "getLogEvents_loop R fn f t0 T w = getLogEvents_loop R fn f t0 T ?w1"
    using first by (rule logs_continue)
  also have "\<dots> = getLogEvents_loop R fn f t0 T (queries_after R fn f j ?w1)"
    using rest by (rule Suc.IH)
  finally show ?case by simp
qed

lemma now_queries_after_le:
  assumes "i \<le> j"
  shows "now (queries_after R fn f i w) \<le> now (queries_after R fn f j w)"
  using assms
proof (induction j)
  case 0
  then show ?case by simp
next
  case (Suc j)
  show ?case
  proof (cases "i = Suc j")
    case True
    then show ?thesis by simp
  next
    case False
    with Suc.prems have "i \<le> j" by simp
    then have "now (queries_after R fn f i w) \<le> now (queries_after R fn f j w)"
      by (rule Suc.IH)
    also have "\<dots> \<le> now (queries_after R fn f (Suc j) w)"
      using now_queries_after_Suc [of R fn f j w] by simp
    finally show ?thesis .
  qed
qed

text \<open>
  The loop always ends: each round that finds nothing moves the clock on by at least the
  one-second sleep. Every query it sent was sent before the deadline.
\<close>

lemma logs_total:
  "\<exists>r j. (\<forall>i<j. now (queries_after R fn f i w) - t0 < T) \<and>
         (getLogEvents_loop R fn f t0 T w = (r, queries_after R fn f j w) \<or>
          (getLogEvents_loop R fn f t0 T w = (r, snd (query R fn f (queries_after R fn f j w))) \<and>
           now (queries_after R fn f j w) - t0 < T))"
proof (induction R fn f t0 T w rule: getLogEvents_loop.induct)
  case (1 R fn f t0 T w)
  show ?case
  proof (cases "now w - t0 < T")
    case False
    then have "getLogEvents_loop R fn f t0 T w = (Inr [], queries_after R fn f 0 w)"
      by (simp add: logs_deadline)
    then show ?thesis
      by (intro exI [of _ "Inr []"] exI [of _ 0]) simp
  next
    case True
    obtain r w' where rw: "send R (FilterLogEventsCommand (''/aws/lambda/'' @ fn)
        (filterPattern f) (startTime f) (now w)) w = (r, w')"
      by (cases "send R (FilterLogEventsCommand (''/aws/lambda/'' @ fn)
        (filterPattern f) (startTime f) (now w)) w")
    then have q: "query R fn f w = (r, w')"
      by (simp add: query_def)
    show ?thesis
    proof (cases r)
      case (Inl e)
      with True q have "getLogEvents_loop R fn f t0 T w =
          (Inl e, snd (query R fn f (queries_after R fn f 0 w)))"
        by (simp add: logs_reject)
      with True show ?thesis
        by (intro exI [of _ "Inl e"] exI [of _ 0]) simp
    next
      case (Inr resp)
      show ?thesis
      proof (cases "no_events resp")
        case False
        then obtain evs where "events resp = Some evs" "evs \<noteq> []"
          by (auto simp: no_events_def split: option.splits)
        with True q Inr have "getLogEvents_loop R fn f t0 T w =
            (Inr evs, snd (query R fn f (queries_after R fn f 0 w)))"
          by (simp add: logs_found)
        with True show ?thesis
          by (intro exI [of _ "Inr evs"] exI [of _ 0]) simp
      next
        case ne: True
        let ?w1 = "setTimeout 1000 w'"
        have evs: "(case events resp of None \<Rightarrow> [] | Some es \<Rightarrow> es) = []"
          using ne by (simp add: no_events_def split: option.splits)
        have step: "getLogEvents_loop R fn f t0 T w = getLogEvents_loop R fn f t0 T ?w1"
          using logs_continue [OF True _ ne, of R fn f] q Inr by simp
        have "\<exists>r j. (\<forall>i<j. now (queries_after R fn f i ?w1) - t0 < T) \<and>
           (getLogEvents_loop R fn f t0 T ?w1 = (r, queries_after R fn f j ?w1) \<or>
            (getLogEvents_loop R fn f t0 T ?w1 =
               (r, snd (query R fn f (queries_after R fn f j ?w1))) \<and>
             now (queries_after R fn f j ?w1) - t0 < T))"
          by (rule "1.IH" [OF True refl refl rw [symmetric] Inr refl]) (simp add: evs)
        then obtain r' j where j: "\<forall>i<j. now (queries_after R fn f i ?w1) - t0 < T"
          "getLogEvents_loop R fn f t0 T ?w1 = (r', queries_after R fn f j ?w1) \<or>
           (getLogEvents_loop R fn f t0 T ?w1 =
              (r', snd (query R fn f (queries_after R fn f j ?w1))) \<and>
            now (queries_after R fn f j ?w1) - t0 < T)"
          by blast
        have a: "\<forall>i<Suc j. now (queries_after R fn f i w) - t0 < T"
        proof (intro allI impI)
          fix i assume "i < Suc j"
          then show "now (queries_after R fn f i w) - t0 < T"
            using True j(1) q by (cases i) simp_all
        qed
        have b: "getLogEvents_loop R fn f t0 T w = (r', queries_after R fn f (Suc j) w) \<or>
           (getLogEvents_loop R fn f t0 T w =
              (r', snd (query R fn f (queries_after R fn f (Suc j) w))) \<and>
            now (queries_after R fn f (Suc j) w) - t0 < T)"
          using step q j(2) by simp
        from a b show ?thesis
          by (intro exI [of _ r'] exI [of _ "Suc j"] conjI)
      qed
    qed
  qed
qed

text \<open>
  When every query sent before the deadline answers with no event, the loop ends at the
  deadline with the empty list.
\<close>

lemma logs_never_found:
  assumes never: "\<forall>i. now (queries_after R fn f i w) - t0 < T \<longrightarrow>
                  (\<exists>resp. query_result R fn f i w = Inr resp \<and> no_events resp)"
  shows "\<exists>j. getLogEvents_loop R fn f t0 T w = (Inr [], queries_after R fn f j w) \<and>
             T \<le> now (queries_after R fn f j w) - t0 \<and>
             (\<forall>i<j. now (queries_after R fn f i w) - t0 < T)"
  using never
proof (induction "nat (t0 + T - now w)" arbitrary: w rule: less_induct)
  case less
  show ?case
  proof (cases "now w - t0 < T")
    case False
    then have "getLogEvents_loop R fn f t0 T w = (Inr [], queries_after R fn f 0 w)"
      by (simp add: logs_deadline)
    with False show ?thesis
      by (intro exI [of _ 0]) simp
  next
    case True
    let ?w1 = "setTimeout 1000 (snd (query R fn f w))"
    from less.prems have "now (queries_after R fn f 0 w) - t0 < T \<longrightarrow>
        (\<exists>resp. query_result R fn f 0 w = Inr resp \<and> no_events resp)"
      by blast
    with True obtain resp where resp: "fst (query R fn f w) = Inr resp" "no_events resp"
      by (auto simp: query_result_def)
    have step: "getLogEvents_loop R fn f t0 T w = getLogEvents_loop R fn f t0 T ?w1"
      using True resp by (rule logs_continue)
    have "now w < now ?w1"
      by (simp add: now_query setTimeout_def)
    with True have smaller: "nat (t0 + T - now ?w1) < nat (t0 + T - now w)"
      by simp
    have never1: "\<forall>i. now (queries_after R fn f i ?w1) - t0 < T \<longrightarrow>
        (\<exists>resp. query_result R fn f i ?w1 = Inr resp \<and> no_events resp)"
    proof
      fix i
      from less.prems have "now (queries_after R fn f (Suc i) w) - t0 < T \<longrightarrow>
          (\<exists>resp. query_result R fn f (Suc i) w = Inr resp \<and> no_events resp)"
        by blast
      then show "now (queries_after R fn f i ?w1) - t0 < T \<longrightarrow>
          (\<exists>resp. query_result R fn f i ?w1 = Inr resp \<and> no_events resp)"
        by (simp add: query_result_def)
    qed
    from less.hyps [OF smaller never1] obtain j where j:
      "getLogEvents_loop R fn f t0 T ?w1 = (Inr [], queries_after R fn f j ?w1)"
      "T \<le> now (queries_after R fn f j ?w1) - t0"
      "\<forall>i<j. now (queries_after R fn f i ?w1) - t0 < T"
      by blast
    have "\<forall>i<Suc j. now (queries_after R fn f i w) - t0 < T"
    proof (intro allI impI)
      fix i assume "i < Suc j"
      then show "now (queries_after R fn f i w) - t0 < T"
        using True j(3) by (cases i) simp_all
    qed
    with step j(1,2) show ?thesis
      by (intro exI [of _ "Suc j"]) simp
  qed
qed

subsection \<open>The deadline of getLogEvents\<close>

text \<open>
  C2. The claim: the log poller's deadline runs from the moment \<open>getLogEvents\<close> is called,
  whatever \<open>filter.startTime\<close> is. The code takes \<open>filter.startTime\<close> as the start of
  its budget. Called at time 31000 with a window that starts at 0, it sends no query and
  returns the empty list at once, whatever the log store holds.
\<close>

theorem getLogEvents_budget_from_filter:
  "getLogEvents R ''fn'' \<lparr>filterPattern = ''hello'', startTime = 0\<rparr> \<lparr>now = 31000, sent = []\<rparr>
     = (Inr [], \<lparr>now = 31000, sent = []\<rparr>)"
  by (simp add: getLogEvents_def getLogEvents_loop.simps)

subsection \<open>waitForFile\<close>

lemma waitForFile_loop_skip:
  assumes "\<forall>k<j. of_nat (i + k) < mt \<and> \<not> F (length (probes w) + k) p"
  shows "waitForFile_loop F p 500 mt i w =
         waitForFile_loop F p 500 mt (i + j)
           \<lparr>clock = clock w + 500 * int j,
            probes = probes w @ map (\<lambda>k. (clock w + 500 * int k, p)) [0..<j]\<rparr>"
  using assms
proof (induction j)
  case 0
  show ?case by (cases w) simp
next
  case (Suc j)
  let ?wj = "\<lparr>clock = clock w + 500 * int j,
            probes = probes w @ map (\<lambda>k. (clock w + 500 * int k, p)) [0..<j]\<rparr>"
  from Suc.prems have "\<forall>k<j. of_nat (i + k) < mt \<and> \<not> F (length (probes w) + k) p"
    by simp
  then have "waitForFile_loop F p 500 mt i w = waitForFile_loop F p 500 mt (i + j) ?wj"
    by (rule Suc.IH)
  moreover from Suc.prems have "of_nat (i + j) < mt" "\<not> F (length (probes w) + j) p"
    by simp_all
  then have "waitForFile_loop F p 500 mt (i + j) ?wj =
      waitForFile_loop F p 500 mt (i + Suc j)
        \<lparr>clock = clock w + 500 * int (Suc j),
         probes = probes w @ map (\<lambda>k. (clock w + 500 * int k, p)) [0..<Suc j]\<rparr>"
    by (subst waitForFile_loop.simps) (simp add: fileExists_def sleep_def algebra_simps)
  ultimately show ?case
    by simp
qed

lemma below_tries:
  "k < nat \<lceil>mt :: rat\<rceil> \<Longrightarrow> of_nat k < mt"
  "\<not> of_nat (nat \<lceil>mt :: rat\<rceil>) < mt"
proof -
  assume "k < nat \<lceil>mt\<rceil>"
  then have "int k < \<lceil>mt\<rceil>"
    by linarith
  then have "of_int (int k) < mt"
    by (simp only: less_ceiling_iff)
  then show "of_nat k < mt"
    by simp
next
  show "\<not> of_nat (nat \<lceil>mt\<rceil>) < mt"
  proof
    assume a: "of_nat (nat \<lceil>mt\<rceil>) < mt"
    have "mt \<le> of_int \<lceil>mt\<rceil>"
      by (rule le_of_int_ceiling)
    also have "of_int \<lceil>mt\<rceil> \<le> (of_int (int (nat \<lceil>mt\<rceil>)) :: rat)"
      by (simp only: of_int_le_iff)
    also have "\<dots> = of_nat (nat \<lceil>mt\<rceil>)"
      by simp
    finally show False
      using a by linarith
  qed
qed

lemma waitForFile_not_found:
  assumes "\<forall>k<nat \<lceil>mt\<rceil>. \<not> F (length (probes w) + k) p"
  shows "waitForFile_loop F p 500 mt 0 w =
         (False, \<lparr>clock = clock w + 500 * int (nat \<lceil>mt\<rceil>),
                  probes = probes w @ map (\<lambda>k. (clock w + 500 * int k, p)) [0..<nat \<lceil>mt\<rceil>]\<rparr>)"
proof -
  have "\<forall>k<nat \<lceil>mt\<rceil>. of_nat (0 + k) < mt \<and> \<not> F (length (probes w) + k) p"
    using assms by (simp add: below_tries(1))
  then have "waitForFile_loop F p 500 mt 0 w =
         waitForFile_loop F p 500 mt (0 + nat \<lceil>mt\<rceil>)
           \<lparr>clock = clock w + 500 * int (nat \<lceil>mt\<rceil>),
            probes = probes w @ map (\<lambda>k. (clock w + 500 * int k, p)) [0..<nat \<lceil>mt\<rceil>]\<rparr>"
    by (rule waitForFile_loop_skip)
  also have "\<dots> = (False, \<lparr>clock = clock w + 500 * int (nat \<lceil>mt\<rceil>),
                  probes = probes w @ map (\<lambda>k. (clock w + 500 * int k, p)) [0..<nat \<lceil>mt\<rceil>]\<rparr>)"
    using below_tries(2) [of mt] by (subst waitForFile_loop.simps) simp
  finally show ?thesis .
qed

lemma waitForFile_found:
  assumes "j < nat \<lceil>mt\<rceil>" and "F (length (probes w) + j) p"
    and "\<forall>k<j. \<not> F (length (probes w) + k) p"
  shows "waitForFile_loop F p 500 mt 0 w =
         (True, \<lparr>clock = clock w + 500 * int j,
                 probes = probes w @ map (\<lambda>k. (clock w + 500 * int k, p)) [0..<Suc j]\<rparr>)"
proof -
  have "\<forall>k<j. of_nat (0 + k) < mt \<and> \<not> F (length (probes w) + k) p"
    using assms(1,3) by (simp add: below_tries(1))
  then have "waitForFile_loop F p 500 mt 0 w =
         waitForFile_loop F p 500 mt (0 + j)
           \<lparr>clock = clock w + 500 * int j,
            probes = probes w @ map (\<lambda>k. (clock w + 500 * int k, p)) [0..<j]\<rparr>"
    by (rule waitForFile_loop_skip)
  also have "\<dots> = (True, \<lparr>clock = clock w + 500 * int j,
                 probes = probes w @ map (\<lambda>k. (clock w + 500 * int k, p)) [0..<Suc j]\<rparr>)"
    using below_tries(1) [OF assms(1)] assms(2)
    by (subst waitForFile_loop.simps) (simp add: fileExists_def)
  finally show ?thesis .
qed

text \<open>
  C10, as claimed: with \<open>timeoutMs\<close> below the 500 ms poll interval \<open>waitForFile\<close> makes no
  existence check and returns false, even when the file is already there. It does not: with
  \<open>timeoutMs = 100\<close> the try count is 0.2, the loop test \<open>0 < 0.2\<close> passes, and a file
  that is there is found by the one check made.
\<close>

theorem waitForFile_short_timeout_counterexample:
  "waitForFile always_there ''out.txt'' 100 fs0 = (True, \<lparr>clock = 0, probes = [(0, ''out.txt'')]\<rparr>)"
  by (simp add: waitForFile_def waitForFile_loop.simps fileExists_def always_there_def fs0_def)

text \<open>
  C10, amended. Let \<open>n = \<lceil>timeoutMs / 500\<rceil>\<close>, or 0 when that is negative: the number of
  tries. When none of the first \<open>n\<close> checks finds the file, \<open>waitForFile\<close> makes exactly
  these \<open>n\<close> checks, the \<open>k\<close>-th one \<open>500 * k\<close> ms after the call, and returns false
  \<open>500 * n\<close> ms after the call. When check \<open>j < n\<close> is the first to find the file, it makes
  exactly the checks \<open>0\<close> to \<open>j\<close> and returns true right after check \<open>j\<close>. So it returns
  true if and only if one of the first \<open>n\<close> checks finds the file. In particular it makes
  no check exactly when \<open>timeoutMs \<le> 0\<close>, and one check when \<open>0 < timeoutMs \<le> 500\<close>.
\<close>

theorem waitForFile_checks:
  "((\<forall>k<nat \<lceil>of_int timeoutMs / 500 :: rat\<rceil>. \<not> F (length (probes w) + k) p) \<longrightarrow>
      waitForFile F p timeoutMs w =
        (False,
         \<lparr>clock = clock w + 500 * int (nat \<lceil>of_int timeoutMs / 500 :: rat\<rceil>),
          probes = probes w @ map (\<lambda>k. (clock w + 500 * int k, p))
                                [0..<nat \<lceil>of_int timeoutMs / 500 :: rat\<rceil>]\<rparr>)) \<and>
   (j < nat \<lceil>of_int timeoutMs / 500 :: rat\<rceil> \<and> F (length (probes w) + j) p \<and>
    (\<forall>k<j. \<not> F (length (probes w) + k) p) \<longrightarrow>
      waitForFile F p timeoutMs w =
        (True,
         \<lparr>clock = clock w + 500 * int j,
          probes = probes w @ map (\<lambda>k. (clock w + 500 * int k, p)) [0..<Suc j]\<rparr>)) \<and>
   (nat \<lceil>of_int timeoutMs / 500 :: rat\<rceil> = 0 \<longleftrightarrow> timeoutMs \<le> 0) \<and>
   (0 < timeoutMs \<and> timeoutMs \<le> 500 \<longrightarrow> nat \<lceil>of_int timeoutMs / 500 :: rat\<rceil> = 1)"
proof (intro conjI impI)
  assume "\<forall>k<nat \<lceil>of_int timeoutMs / 500 :: rat\<rceil>. \<not> F (length (probes w) + k) p"
  then show "waitForFile F p timeoutMs w =
        (False,
         \<lparr>clock = clock w + 500 * int (nat \<lceil>of_int timeoutMs / 500 :: rat\<rceil>),
          probes = probes w @ map (\<lambda>k. (clock w + 500 * int k, p))
                                [0..<nat \<lceil>of_int timeoutMs / 500 :: rat\<rceil>]\<rparr>)"
    using waitForFile_not_found [of "of_int timeoutMs / 500" F w p]
    by (simp add: waitForFile_def)
next
  assume "j < nat \<lceil>of_int timeoutMs / 500 :: rat\<rceil> \<and> F (length (probes w) + j) p \<and>
    (\<forall>k<j. \<not> F (length (probes w) + k) p)"
  then show "waitForFile F p timeoutMs w =
        (True,
         \<lparr>clock = clock w + 500 * int j,
          probes = probes w @ map (\<lambda>k. (clock w + 500 * int k, p)) [0..<Suc j]\<rparr>)"
    using waitForFile_found [of j "of_int timeoutMs / 500" F w p]
    by (simp add: waitForFile_def)
next
  have "\<lceil>of_int timeoutMs / 500 :: rat\<rceil> \<le> 0 \<longleftrightarrow> timeoutMs \<le> 0"
    by (simp add: ceiling_le_iff field_simps)
  then show "nat \<lceil>of_int timeoutMs / 500 :: rat\<rceil> = 0 \<longleftrightarrow> timeoutMs \<le> 0"
    by simp
next
  assume t: "0 < timeoutMs \<and> timeoutMs \<le> 500"
  then have "(of_int timeoutMs :: rat) \<le> of_int 500"
    by (simp only: of_int_le_iff)
  with t have "\<lceil>of_int timeoutMs / 500 :: rat\<rceil> = 1"
    by (simp add: ceiling_eq_iff)
  then show "nat \<lceil>of_int timeoutMs / 500 :: rat\<rceil> = 1"
    by simp
qed

theorem waitForFile_checks_witness:
  "waitForFile always_there ''out.txt'' 0 fs0 = (False, fs0) \<and>
   waitForFile always_there ''out.txt'' 100 fs0
     = (True, \<lparr>clock = 0, probes = [(0, ''out.txt'')]\<rparr>) \<and>
   waitForFile never_there ''out.txt'' 1200 fs0
     = (False, \<lparr>clock = 1500,
                probes = [(0, ''out.txt''), (500, ''out.txt''), (1000, ''out.txt'')]\<rparr>) \<and>
   waitForFile (there_from 1) ''out.txt'' 10000 fs0
     = (True, \<lparr>clock = 500, probes = [(0, ''out.txt''), (500, ''out.txt'')]\<rparr>)"
proof -
  have c0: "nat \<lceil>0 :: rat\<rceil> = 0" by simp
  have "\<lceil>1 / 5 :: rat\<rceil> = 1" by (simp add: ceiling_eq_iff)
  then have c1: "nat \<lceil>1 / 5 :: rat\<rceil> = Suc 0" by simp
  have "\<lceil>12 / 5 :: rat\<rceil> = 3" by (simp add: ceiling_eq_iff)
  then have c3: "nat \<lceil>12 / 5 :: rat\<rceil> = 3" by (simp only: nat_numeral)
  have c20: "nat \<lceil>20 :: rat\<rceil> = 20" by simp
  have up3: "[0..<3] = [0, Suc 0, 2]"
    by (simp add: upt_rec)
  have a: "waitForFile always_there ''out.txt'' 0 fs0 = (False, fs0)"
    using waitForFile_checks [of 0 always_there fs0 "''out.txt''" 0]
    by (simp add: fs0_def)
  have b: "waitForFile always_there ''out.txt'' 100 fs0
     = (True, \<lparr>clock = 0, probes = [(0, ''out.txt'')]\<rparr>)"
    using waitForFile_checks [of 100 always_there fs0 "''out.txt''" 0]
    by (simp add: c1 always_there_def fs0_def)
  have c: "waitForFile never_there ''out.txt'' 1200 fs0
     = (False, \<lparr>clock = 1500,
                probes = [(0, ''out.txt''), (500, ''out.txt''), (1000, ''out.txt'')]\<rparr>)"
    using waitForFile_checks [of 1200 never_there fs0 "''out.txt''" 0]
    by (simp add: c3 up3 never_there_def fs0_def)
  have d: "waitForFile (there_from 1) ''out.txt'' 10000 fs0
     = (True, \<lparr>clock = 500, probes = [(0, ''out.txt''), (500, ''out.txt'')]\<rparr>)"
    using waitForFile_checks [of 10000 "there_from 1" fs0 "''out.txt''" "Suc 0"]
    by (simp add: c20 there_from_def fs0_def)
  from a b c d show ?thesis
    by blast
qed

subsection \<open>Reading the queue\<close>

lemma now_receiveMessages:
  "now (snd (receiveMessages R q m w)) =
     now w + int (fst (R (length (sent w)) (ReceiveMessageCommand q m 1)))"
  by (simp add: receiveMessages_def send_def split: prod.splits sum.splits)

lemma sent_receiveMessages:
  "sent (snd (receiveMessages R q m w)) = sent w @ [(now w, ReceiveMessageCommand q m 1)]"
  by (simp add: receiveMessages_def send_def split: prod.splits sum.splits)

lemma reads_after_Suc:
  "reads_after R q (Suc j) w = snd (receiveMessages R q 10 (reads_after R q j w))"
  by (induction j arbitrary: w) simp_all

lemma reads_after_add:
  "reads_after R q (i + j) w = reads_after R q j (reads_after R q i w)"
  by (induction i arbitrary: w) simp_all

lemma now_reads_after_mono: "now w \<le> now (reads_after R q j w)"
proof (induction j arbitrary: w)
  case 0
  show ?case by simp
next
  case (Suc j)
  have "now w \<le> now (snd (receiveMessages R q 10 w))"
    by (simp add: now_receiveMessages)
  also have "\<dots> \<le> now (reads_after R q (Suc j) w)"
    using Suc.IH [of "snd (receiveMessages R q 10 w)"] by simp
  finally show ?case .
qed

lemma now_reads_after_le:
  assumes "i \<le> j"
  shows "now (reads_after R q i w) \<le> now (reads_after R q j w)"
proof -
  from assms obtain d where "j = i + d"
    using le_Suc_ex by blast
  then show ?thesis
    by (simp add: reads_after_add now_reads_after_mono)
qed

lemma sent_reads_after:
  "sent (reads_after R q j w) =
     sent w @ map (\<lambda>i. (now (reads_after R q i w), ReceiveMessageCommand q 10 1)) [0..<j]"
proof (induction j)
  case 0
  show ?case by simp
next
  case (Suc j)
  then show ?case
    by (simp add: reads_after_Suc sent_receiveMessages del: reads_after.simps)
qed

lemma now_reads_after_pos:
  assumes "\<forall>k c. 0 < fst (R k c)"
  shows "now (reads_after R q j w) < now (reads_after R q (Suc j) w)"
  using assms by (simp add: reads_after_Suc now_receiveMessages del: reads_after.simps)

lemma now_reads_after_bound:
  assumes "\<forall>k c. fst (R k c) \<le> B"
  shows "now (reads_after R q (Suc j) w) \<le> now (reads_after R q j w) + int B"
  using assms by (simp add: reads_after_Suc now_receiveMessages del: reads_after.simps)

subsection \<open>The loop of waitForLambdaProcessing\<close>

lemma loop_continue:
  assumes "now w - t0 < T"
    and "fst (receiveMessages R q 10 w) = Inr ms"
    and "int (length ms) \<noteq> n"
  shows "waitForLambdaProcessing_loop R q n T t0 w =
         waitForLambdaProcessing_loop R q n T t0 (snd (receiveMessages R q 10 w))"
proof -
  obtain r w' where "receiveMessages R q 10 w = (r, w')"
    by (cases "receiveMessages R q 10 w")
  with assms show ?thesis
    by (subst waitForLambdaProcessing_loop.simps) simp
qed

lemma loop_match:
  assumes "now w - t0 < T"
    and "fst (receiveMessages R q 10 w) = Inr ms"
    and "int (length ms) = n"
  shows "waitForLambdaProcessing_loop R q n T t0 w =
         Some (Inr (), snd (receiveMessages R q 10 w))"
proof -
  obtain r w' where "receiveMessages R q 10 w = (r, w')"
    by (cases "receiveMessages R q 10 w")
  with assms show ?thesis
    by (subst waitForLambdaProcessing_loop.simps) simp
qed

lemma loop_reject:
  assumes "now w - t0 < T"
    and "fst (receiveMessages R q 10 w) = Inl e"
  shows "waitForLambdaProcessing_loop R q n T t0 w =
         Some (Inl e, snd (receiveMessages R q 10 w))"
proof -
  obtain r w' where "receiveMessages R q 10 w = (r, w')"
    by (cases "receiveMessages R q 10 w")
  with assms show ?thesis
    by (subst waitForLambdaProcessing_loop.simps) simp
qed

lemma loop_deadline:
  assumes "\<not> now w - t0 < T"
  shows "waitForLambdaProcessing_loop R q n T t0 w =
         Some (Inl (Error (''Timeout waiting for Lambda processing. Expected ''
                  @ show_int n @ '' messages'')), w)"
  using assms
  by (subst waitForLambdaProcessing_loop.simps) simp

lemma loop_skip:
  assumes "\<forall>i<j. now (reads_after R q i w) - t0 < T \<and>
             (\<exists>ms. read_result R q i w = Inr ms \<and> int (length ms) \<noteq> n)"
  shows "waitForLambdaProcessing_loop R q n T t0 w =
         waitForLambdaProcessing_loop R q n T t0 (reads_after R q j w)"
  using assms
proof (induction j arbitrary: w)
  case 0
  show ?case by simp
next
  case (Suc j)
  let ?w1 = "snd (receiveMessages R q 10 w)"
  from Suc.prems have "now (reads_after R q 0 w) - t0 < T \<and>
      (\<exists>ms. read_result R q 0 w = Inr ms \<and> int (length ms) \<noteq> n)"
    by blast
  then obtain ms where first: "now w - t0 < T" "fst (receiveMessages R q 10 w) = Inr ms"
      "int (length ms) \<noteq> n"
    by (auto simp: read_result_def)
  have rest: "\<forall>i<j. now (reads_after R q i ?w1) - t0 < T \<and>
             (\<exists>ms. read_result R q i ?w1 = Inr ms \<and> int (length ms) \<noteq> n)"
  proof (intro allI impI)
    fix i assume "i < j"
    then have "Suc i < Suc j" by simp
    with Suc.prems have "now (reads_after R q (Suc i) w) - t0 < T \<and>
             (\<exists>ms. read_result R q (Suc i) w = Inr ms \<and> int (length ms) \<noteq> n)"
      by blast
    then show "now (reads_after R q i ?w1) - t0 < T \<and>
             (\<exists>ms. read_result R q i ?w1 = Inr ms \<and> int (length ms) \<noteq> n)"
      by (simp add: read_result_def)
  qed
  have "waitForLambdaProcessing_loop R q n T t0 w = waitForLambdaProcessing_loop R q n T t0 ?w1"
    using first by (rule loop_continue)
  also have "\<dots> = waitForLambdaProcessing_loop R q n T t0 (reads_after R q j ?w1)"
    using rest by (rule Suc.IH)
  finally show ?case by simp
qed

text \<open>
  When every read sent before the deadline answers, with the wrong count, and takes at least
  a millisecond, the loop ends at the deadline with the timeout error.
\<close>

lemma loop_never_matching:
  assumes pos: "\<forall>k c. 0 < fst (R k c)"
    and never: "\<forall>i. now (reads_after R q i w) - t0 < T \<longrightarrow>
                  (\<exists>ms. read_result R q i w = Inr ms \<and> int (length ms) \<noteq> n)"
  shows "\<exists>j. waitForLambdaProcessing_loop R q n T t0 w =
             Some (Inl (Error (''Timeout waiting for Lambda processing. Expected ''
                      @ show_int n @ '' messages'')), reads_after R q j w) \<and>
             T \<le> now (reads_after R q j w) - t0 \<and>
             (\<forall>i<j. now (reads_after R q i w) - t0 < T)"
  using never
proof (induction "nat (t0 + T - now w)" arbitrary: w rule: less_induct)
  case less
  show ?case
  proof (cases "now w - t0 < T")
    case False
    then have "waitForLambdaProcessing_loop R q n T t0 w =
         Some (Inl (Error (''Timeout waiting for Lambda processing. Expected ''
                  @ show_int n @ '' messages'')), reads_after R q 0 w)"
      by (simp add: loop_deadline)
    with False show ?thesis
      by (intro exI [of _ 0]) simp
  next
    case True
    let ?w1 = "snd (receiveMessages R q 10 w)"
    from less.prems have "now (reads_after R q 0 w) - t0 < T \<longrightarrow>
        (\<exists>ms. read_result R q 0 w = Inr ms \<and> int (length ms) \<noteq> n)"
      by blast
    with True obtain ms where ms: "read_result R q 0 w = Inr ms" "int (length ms) \<noteq> n"
      by auto
    then have step: "waitForLambdaProcessing_loop R q n T t0 w =
        waitForLambdaProcessing_loop R q n T t0 ?w1"
      using True by (intro loop_continue [where ms = ms]) (simp_all add: read_result_def)
    have "now w < now ?w1"
      using pos by (simp add: now_receiveMessages)
    with True have smaller: "nat (t0 + T - now ?w1) < nat (t0 + T - now w)"
      by simp
    have never1: "\<forall>i. now (reads_after R q i ?w1) - t0 < T \<longrightarrow>
        (\<exists>ms. read_result R q i ?w1 = Inr ms \<and> int (length ms) \<noteq> n)"
    proof
      fix i
      from less.prems have "now (reads_after R q (Suc i) w) - t0 < T \<longrightarrow>
          (\<exists>ms. read_result R q (Suc i) w = Inr ms \<and> int (length ms) \<noteq> n)"
        by blast
      then show "now (reads_after R q i ?w1) - t0 < T \<longrightarrow>
          (\<exists>ms. read_result R q i ?w1 = Inr ms \<and> int (length ms) \<noteq> n)"
        by (simp add: read_result_def)
    qed
    from less.hyps [OF smaller never1] obtain j where j:
      "waitForLambdaProcessing_loop R q n T t0 ?w1 =
             Some (Inl (Error (''Timeout waiting for Lambda processing. Expected ''
                      @ show_int n @ '' messages'')), reads_after R q j ?w1)"
      "T \<le> now (reads_after R q j ?w1) - t0"
      "\<forall>i<j. now (reads_after R q i ?w1) - t0 < T"
      by blast
    have "\<forall>i<Suc j. now (reads_after R q i w) - t0 < T"
    proof (intro allI impI)
      fix i assume "i < Suc j"
      then show "now (reads_after R q i w) - t0 < T"
        using True j(3) by (cases i) simp_all
    qed
    with step j(1,2) show ?thesis
      by (intro exI [of _ "Suc j"]) simp
  qed
qed

text \<open>
  When every read takes at least a millisecond the loop ends, whatever the reads answer,
  and every read it sent was sent before the deadline.
\<close>

lemma loop_total:
  assumes pos: "\<forall>k c. 0 < fst (R k c)"
  shows "\<exists>r j. waitForLambdaProcessing_loop R q n T t0 w = Some (r, reads_after R q j w) \<and>
               (\<forall>i<j. now (reads_after R q i w) - t0 < T)"
proof (induction "nat (t0 + T - now w)" arbitrary: w rule: less_induct)
  case less
  show ?case
  proof (cases "now w - t0 < T")
    case False
    then have "waitForLambdaProcessing_loop R q n T t0 w =
         Some (Inl (Error (''Timeout waiting for Lambda processing. Expected ''
                  @ show_int n @ '' messages'')), reads_after R q 0 w)"
      by (simp add: loop_deadline)
    then show ?thesis
      by (intro exI [of _ "Inl (Error (''Timeout waiting for Lambda processing. Expected ''
                  @ show_int n @ '' messages''))"] exI [of _ 0]) simp
  next
    case True
    let ?w1 = "snd (receiveMessages R q 10 w)"
    have one: "\<forall>i<Suc 0. now (reads_after R q i w) - t0 < T"
      using True by simp
    show ?thesis
    proof (cases "fst (receiveMessages R q 10 w)")
      case (Inl e)
      with True have "waitForLambdaProcessing_loop R q n T t0 w =
          Some (Inl e, reads_after R q (Suc 0) w)"
        by (simp add: loop_reject)
      with one show ?thesis
        by (intro exI [of _ "Inl e"] exI [of _ "Suc 0"] conjI)
    next
      case (Inr ms)
      show ?thesis
      proof (cases "int (length ms) = n")
        case eq: True
        with True Inr have "waitForLambdaProcessing_loop R q n T t0 w =
            Some (Inr (), reads_after R q (Suc 0) w)"
          by (simp add: loop_match)
        with one show ?thesis
          by (intro exI [of _ "Inr ()"] exI [of _ "Suc 0"] conjI)
      next
        case False
        with True Inr have step: "waitForLambdaProcessing_loop R q n T t0 w =
            waitForLambdaProcessing_loop R q n T t0 ?w1"
          by (intro loop_continue [where ms = ms])
        have "now w < now ?w1"
          using pos by (simp add: now_receiveMessages)
        with True have smaller: "nat (t0 + T - now ?w1) < nat (t0 + T - now w)"
          by simp
        from less.hyps [OF smaller] obtain r j where j:
          "waitForLambdaProcessing_loop R q n T t0 ?w1 = Some (r, reads_after R q j ?w1)"
          "\<forall>i<j. now (reads_after R q i ?w1) - t0 < T"
          by blast
        have "\<forall>i<Suc j. now (reads_after R q i w) - t0 < T"
        proof (intro allI impI)
          fix i assume "i < Suc j"
          then show "now (reads_after R q i w) - t0 < T"
            using True j(2) by (cases i) simp_all
        qed
        moreover have "waitForLambdaProcessing_loop R q n T t0 w =
            Some (r, reads_after R q (Suc j) w)"
          using step j(1) by simp
        ultimately show ?thesis
          by (intro exI [of _ r] exI [of _ "Suc j"] conjI)
      qed
    qed
  qed
qed

subsection \<open>The sample environments\<close>

lemma read_result_holding:
  "read_result (holding m) q i w = Inr (replicate m msg)"
  by (simp add: read_result_def receiveMessages_def send_def holding_def)

lemma holding_pos: "\<forall>k c. 0 < fst (holding m k c)"
  by (simp add: holding_def)

lemma show_int_0: "show_int 0 = ''0''"
  by (simp add: show_int_def show_nat.simps digit_def)

subsection \<open>What waitForLambdaProcessing does\<close>




subsection \<open>The timeout error\<close>

text \<open>
  C3, as claimed: the timeout error carries the expected count and the last observed count.
  It does not carry the observed count: polling for 0 messages with a 12000 ms budget, a
  queue that always holds 5 messages and one that always holds 7 end in the very same error.
\<close>

theorem timeout_error_observed_count_counterexample:
  "map_option fst (waitForLambdaProcessing (holding 5) ''q'' 0 12000 w0)
     = Some (Inl (Error ''Timeout waiting for Lambda processing. Expected 0 messages'')) \<and>
   map_option fst (waitForLambdaProcessing (holding 7) ''q'' 0 12000 w0)
     = Some (Inl (Error ''Timeout waiting for Lambda processing. Expected 0 messages''))"
  by (simp add: waitForLambdaProcessing_def waitForLambdaProcessing_loop.simps
      receiveMessages_def send_def setTimeout_def holding_def w0_def
      show_int_def show_nat.simps digit_def)

text \<open>
  C3, amended: when no read sent before the deadline answers with the expected count (every
  read answering, after at least a millisecond), \<open>waitForLambdaProcessing\<close> throws an error
  whose message names the expected count and nothing else.
\<close>

theorem timeout_error_expected_count:
  "(\<forall>k c. 0 < fst (R k c)) \<and>
   (\<forall>i. now (reads_after R q i (setTimeout 10000 w)) - now w < T \<longrightarrow>
        (\<exists>ms. read_result R q i (setTimeout 10000 w) = Inr ms \<and> int (length ms) \<noteq> n))
   \<longrightarrow> map_option fst (waitForLambdaProcessing R q n T w)
         = Some (Inl (Error (''Timeout waiting for Lambda processing. Expected ''
                        @ show_int n @ '' messages'')))"
proof
  let ?w1 = "setTimeout 10000 w"
  assume "(\<forall>k c. 0 < fst (R k c)) \<and>
    (\<forall>i. now (reads_after R q i ?w1) - now w < T \<longrightarrow>
         (\<exists>ms. read_result R q i ?w1 = Inr ms \<and> int (length ms) \<noteq> n))"
  then have "\<exists>j. waitForLambdaProcessing_loop R q n T (now w) ?w1 =
             Some (Inl (Error (''Timeout waiting for Lambda processing. Expected ''
                      @ show_int n @ '' messages'')), reads_after R q j ?w1) \<and>
             T \<le> now (reads_after R q j ?w1) - now w \<and>
             (\<forall>i<j. now (reads_after R q i ?w1) - now w < T)"
    by (intro loop_never_matching) simp_all
  then show "map_option fst (waitForLambdaProcessing R q n T w)
         = Some (Inl (Error (''Timeout waiting for Lambda processing. Expected ''
                        @ show_int n @ '' messages'')))"
    by (auto simp: waitForLambdaProcessing_def)
qed

theorem timeout_error_expected_count_witness:
  "(\<forall>k c. 0 < fst (holding 5 k c)) \<and>
   map_option fst (waitForLambdaProcessing (holding 5) ''q'' 0 2000 w0)
     = Some (Inl (Error ''Timeout waiting for Lambda processing. Expected 0 messages''))"
proof -
  have h1: "\<forall>k c. 0 < fst (holding 5 k c)"
    by (simp add: holding_def)
  have h2: "\<forall>i. now (reads_after (holding 5) ''q'' i (setTimeout 10000 w0)) - now w0 < 2000 \<longrightarrow>
        (\<exists>ms. read_result (holding 5) ''q'' i (setTimeout 10000 w0) = Inr ms
               \<and> int (length ms) \<noteq> 0)"
    by (simp add: read_result_holding)
  from timeout_error_expected_count [of "holding 5" "''q''" w0 2000 0] h1 h2
  show ?thesis
    by (simp add: show_int_0)
qed

subsection \<open>Rejected requests\<close>

lemma reads_after_sends:
  "reads_after R q j w = after_sends R (replicate j (ReceiveMessageCommand q 10 1)) w"
  by (induction j arbitrary: w) (simp_all add: snd_receiveMessages)

lemma read_result_answered:
  assumes "answered (fst (send R (ReceiveMessageCommand q 10 1)
                            (after_sends R (replicate j (ReceiveMessageCommand q 10 1)) w)))"
  shows "read_result R q j w =
           Inr (batch_of (fst (send R (ReceiveMessageCommand q 10 1)
                                 (after_sends R (replicate j (ReceiveMessageCommand q 10 1)) w))))"
  using receiveMessages_answered [OF assms] by (simp add: read_result_def reads_after_sends)

lemma read_result_rejected:
  assumes "fst (send R (ReceiveMessageCommand q 10 1)
                  (after_sends R (replicate j (ReceiveMessageCommand q 10 1)) w)) = Inl e"
  shows "read_result R q j w = Inl e"
  using receiveMessages_rejected [OF assms] by (simp add: read_result_def reads_after_sends)

lemma waitForLambdaProcessing_rejected:
  assumes "\<forall>i<j. \<exists>ms. read_result R q i (setTimeout 10000 w) = Inr ms \<and> int (length ms) \<noteq> n"
    and "read_result R q j (setTimeout 10000 w) = Inl e"
    and "now (reads_after R q j (setTimeout 10000 w)) - now w < T"
  shows "waitForLambdaProcessing R q n T w
          = Some (Inl e, reads_after R q (Suc j) (setTimeout 10000 w))"
proof -
  let ?w1 = "setTimeout 10000 w"
  have "\<forall>i<j. now (reads_after R q i ?w1) - now w < T \<and>
          (\<exists>ms. read_result R q i ?w1 = Inr ms \<and> int (length ms) \<noteq> n)"
  proof (intro allI impI)
    fix i assume i: "i < j"
    then have "now (reads_after R q i ?w1) \<le> now (reads_after R q j ?w1)"
      by (intro now_reads_after_le) simp
    with assms i show "now (reads_after R q i ?w1) - now w < T \<and>
          (\<exists>ms. read_result R q i ?w1 = Inr ms \<and> int (length ms) \<noteq> n)"
      by auto
  qed
  then have "waitForLambdaProcessing_loop R q n T (now w) ?w1 =
      waitForLambdaProcessing_loop R q n T (now w) (reads_after R q j ?w1)"
    by (rule loop_skip)
  also have "\<dots> = Some (Inl e, snd (receiveMessages R q 10 (reads_after R q j ?w1)))"
    using assms by (intro loop_reject) (simp_all add: read_result_def)
  finally show ?thesis
    by (simp add: waitForLambdaProcessing_def reads_after_Suc del: reads_after.simps)
qed

text \<open>
  C8. In either poller a rejected read is neither retried nor swallowed. The hypotheses
  speak of the remote side only: what it answers to the requests the poller sends. When the
  remote answers the reads before read \<open>j\<close> in a way that only makes the loop go on (for
  the queue poller a batch of another length than \<open>n\<close>, for the log poller no event), read
  \<open>j\<close> is sent before the deadline and the remote rejects it with \<open>e\<close>, the poller throws
  \<open>e\<close> itself, and the rejected read is the last request it sent: \<open>j + 1\<close> requests in
  all, for the queue poller \<open>j + 1\<close> reads of the queue and nothing else.
\<close>

theorem rejection_propagates:
  "((\<forall>i<j. answered (fst (send R (ReceiveMessageCommand q 10 1)
                (after_sends R (replicate i (ReceiveMessageCommand q 10 1)) (setTimeout 10000 w)))) \<and>
           int (length (batch_of (fst (send R (ReceiveMessageCommand q 10 1)
                (after_sends R (replicate i (ReceiveMessageCommand q 10 1)) (setTimeout 10000 w))))))
             \<noteq> n) \<and>
    fst (send R (ReceiveMessageCommand q 10 1)
           (after_sends R (replicate j (ReceiveMessageCommand q 10 1)) (setTimeout 10000 w))) = Inl e \<and>
    now (after_sends R (replicate j (ReceiveMessageCommand q 10 1)) (setTimeout 10000 w)) - now w < T
    \<longrightarrow> waitForLambdaProcessing R q n T w
          = Some (Inl e, after_sends R (replicate (Suc j) (ReceiveMessageCommand q 10 1))
                           (setTimeout 10000 w)) \<and>
        length (sent (after_sends R (replicate (Suc j) (ReceiveMessageCommand q 10 1))
                        (setTimeout 10000 w))) = length (sent w) + Suc j \<and>
        map snd (sent (after_sends R (replicate (Suc j) (ReceiveMessageCommand q 10 1))
                         (setTimeout 10000 w)))
          = map snd (sent w) @ replicate (Suc j) (ReceiveMessageCommand q 10 1)) \<and>
   ((\<forall>i<j. \<exists>resp. query_result R fn f i w = Inr resp \<and> no_events resp) \<and>
    query_result R fn f j w = Inl e \<and>
    now (queries_after R fn f j w) - startTime f < 30000
    \<longrightarrow> getLogEvents R fn f w = (Inl e, snd (query R fn f (queries_after R fn f j w))) \<and>
        length (sent (snd (query R fn f (queries_after R fn f j w)))) = length (sent w) + Suc j)"
proof (intro conjI impI)
  let ?rc = "ReceiveMessageCommand q 10 1"
  let ?w1 = "setTimeout 10000 w"
  assume a: "(\<forall>i<j. answered (fst (send R ?rc (after_sends R (replicate i ?rc) ?w1))) \<and>
           int (length (batch_of (fst (send R ?rc (after_sends R (replicate i ?rc) ?w1))))) \<noteq> n) \<and>
    fst (send R ?rc (after_sends R (replicate j ?rc) ?w1)) = Inl e \<and>
    now (after_sends R (replicate j ?rc) ?w1) - now w < T"
  have h1: "\<forall>i<j. \<exists>ms. read_result R q i ?w1 = Inr ms \<and> int (length ms) \<noteq> n"
  proof (intro allI impI)
    fix i assume "i < j"
    with a have "answered (fst (send R ?rc (after_sends R (replicate i ?rc) ?w1)))"
      and "int (length (batch_of (fst (send R ?rc (after_sends R (replicate i ?rc) ?w1))))) \<noteq> n"
      by simp_all
    then show "\<exists>ms. read_result R q i ?w1 = Inr ms \<and> int (length ms) \<noteq> n"
      using read_result_answered [of R q i ?w1] by simp
  qed
  from a have h2: "read_result R q j ?w1 = Inl e"
    by (intro read_result_rejected) simp
  from a have h3: "now (reads_after R q j ?w1) - now w < T"
    by (simp add: reads_after_sends)
  from waitForLambdaProcessing_rejected [OF h1 h2 h3]
  show "waitForLambdaProcessing R q n T w = Some (Inl e, after_sends R (replicate (Suc j) ?rc) ?w1)"
    by (simp only: reads_after_sends)
  show "length (sent (after_sends R (replicate (Suc j) ?rc) ?w1)) = length (sent w) + Suc j"
    by (simp only: length_sent_after_sends length_replicate) (simp add: setTimeout_def)
  show "map snd (sent (after_sends R (replicate (Suc j) ?rc) ?w1))
          = map snd (sent w) @ replicate (Suc j) ?rc"
    by (simp only: commands_after_sends) (simp add: setTimeout_def)
next
  assume a: "(\<forall>i<j. \<exists>resp. query_result R fn f i w = Inr resp \<and> no_events resp) \<and>
    query_result R fn f j w = Inl e \<and> now (queries_after R fn f j w) - startTime f < 30000"
  have "\<forall>i<j. now (queries_after R fn f i w) - startTime f < 30000 \<and>
          (\<exists>resp. query_result R fn f i w = Inr resp \<and> no_events resp)"
  proof (intro allI impI)
    fix i assume i: "i < j"
    then have "now (queries_after R fn f i w) \<le> now (queries_after R fn f j w)"
      by (intro now_queries_after_le) simp
    with a i show "now (queries_after R fn f i w) - startTime f < 30000 \<and>
          (\<exists>resp. query_result R fn f i w = Inr resp \<and> no_events resp)"
      by auto
  qed
  then have "getLogEvents_loop R fn f (startTime f) 30000 w =
      getLogEvents_loop R fn f (startTime f) 30000 (queries_after R fn f j w)"
    by (rule logs_skip)
  also have "\<dots> = (Inl e, snd (query R fn f (queries_after R fn f j w)))"
    using a by (intro logs_reject) (simp_all add: query_result_def)
  finally show "getLogEvents R fn f w = (Inl e, snd (query R fn f (queries_after R fn f j w)))"
    by (simp add: getLogEvents_def)
  show "length (sent (snd (query R fn f (queries_after R fn f j w)))) = length (sent w) + Suc j"
    by (simp add: sent_query sent_queries_after)
qed


theorem rejection_propagates_witness:
  "waitForLambdaProcessing (failing_at 2) ''q'' 0 30000 w0
     = Some (Inl (Rejected ''NetworkingError''),
             \<lparr>now = 13000, sent = [(10000, ReceiveMessageCommand ''q'' 10 1),
                                    (11000, ReceiveMessageCommand ''q'' 10 1),
                                    (12000, ReceiveMessageCommand ''q'' 10 1)]\<rparr>) \<and>
   getLogEvents (failing_at 2) ''fn'' flt w0
     = (Inl (Rejected ''NetworkingError''),
        \<lparr>now = 5000,
         sent = [(0, FilterLogEventsCommand ''/aws/lambda/fn'' ''hello-test-42'' 0 0),
                 (2000, FilterLogEventsCommand ''/aws/lambda/fn'' ''hello-test-42'' 0 2000),
                 (4000, FilterLogEventsCommand ''/aws/lambda/fn'' ''hello-test-42'' 0 4000)]\<rparr>)"
proof -
  let ?rc = "ReceiveMessageCommand ''q'' 10 1"
  let ?w1 = "setTimeout 10000 w0"
  have r0: "fst (send (failing_at 2) ?rc (after_sends (failing_at 2) (replicate 0 ?rc) ?w1))
              = Inr \<lparr>Messages = Some [msg], MessageId = None, events = Some []\<rparr>"
    and r1: "fst (send (failing_at 2) ?rc (after_sends (failing_at 2) (replicate (Suc 0) ?rc) ?w1))
              = Inr \<lparr>Messages = Some [msg], MessageId = None, events = Some []\<rparr>"
    and r2: "fst (send (failing_at 2) ?rc (after_sends (failing_at 2) (replicate 2 ?rc) ?w1))
               = Inl (Rejected ''NetworkingError'')"
    and w2: "after_sends (failing_at 2) (replicate 2 ?rc) ?w1
               = \<lparr>now = 12000, sent = [(10000, ReceiveMessageCommand ''q'' 10 1),
                                       (11000, ReceiveMessageCommand ''q'' 10 1)]\<rparr>"
    and w3: "after_sends (failing_at 2) (replicate (Suc 2) ?rc) ?w1
               = \<lparr>now = 13000, sent = [(10000, ReceiveMessageCommand ''q'' 10 1),
                                       (11000, ReceiveMessageCommand ''q'' 10 1),
                                       (12000, ReceiveMessageCommand ''q'' 10 1)]\<rparr>"
    by (simp_all add: send_def failing_at_def setTimeout_def w0_def eval_nat_numeral)
  have q0: "query_result (failing_at 2) ''fn'' flt 0 w0
              = Inr \<lparr>Messages = Some [msg], MessageId = None, events = Some []\<rparr>"
    and q1: "query_result (failing_at 2) ''fn'' flt (Suc 0) w0
              = Inr \<lparr>Messages = Some [msg], MessageId = None, events = Some []\<rparr>"
    and q2: "query_result (failing_at 2) ''fn'' flt 2 w0 = Inl (Rejected ''NetworkingError'')"
    and v2: "queries_after (failing_at 2) ''fn'' flt 2 w0
               = \<lparr>now = 4000,
         sent = [(0, FilterLogEventsCommand ''/aws/lambda/fn'' ''hello-test-42'' 0 0),
                 (2000, FilterLogEventsCommand ''/aws/lambda/fn'' ''hello-test-42'' 0 2000)]\<rparr>"
    and v3: "snd (query (failing_at 2) ''fn'' flt (queries_after (failing_at 2) ''fn'' flt 2 w0))
               = \<lparr>now = 5000,
         sent = [(0, FilterLogEventsCommand ''/aws/lambda/fn'' ''hello-test-42'' 0 0),
                 (2000, FilterLogEventsCommand ''/aws/lambda/fn'' ''hello-test-42'' 0 2000),
                 (4000, FilterLogEventsCommand ''/aws/lambda/fn'' ''hello-test-42'' 0 4000)]\<rparr>"
    by (simp_all add: query_result_def query_def send_def failing_at_def
        setTimeout_def w0_def flt_def eval_nat_numeral)
  have h1: "\<forall>i<2. answered (fst (send (failing_at 2) ?rc
                                  (after_sends (failing_at 2) (replicate i ?rc) ?w1))) \<and>
              int (length (batch_of (fst (send (failing_at 2) ?rc
                                  (after_sends (failing_at 2) (replicate i ?rc) ?w1))))) \<noteq> 0"
    using r0 r1 by (auto simp: less_2_cases_iff answered_def batch_of_def)
  have h2: "now (after_sends (failing_at 2) (replicate 2 ?rc) ?w1) - now w0 < 30000"
    by (simp only: w2) (simp add: w0_def)
  have h3: "\<forall>i<2. \<exists>resp. query_result (failing_at 2) ''fn'' flt i w0 = Inr resp \<and> no_events resp"
    by (auto simp: less_2_cases_iff q0 q1 no_events_def)
  have h4: "now (queries_after (failing_at 2) ''fn'' flt 2 w0) - startTime flt < 30000"
    by (simp add: v2) (simp add: flt_def)
  from rejection_propagates [of 2 "failing_at 2" "''q''" w0 0 "Rejected ''NetworkingError''"
      30000 "''fn''" flt] h1 r2 h2 h3 q2 h4
  show ?thesis
    by (simp only: w3 v3)
qed

subsection \<open>What getLogEvents does\<close>

text \<open>
  C5. First part: when every query sent before the deadline is answered and holds no
  event, \<open>getLogEvents\<close> returns the empty list, not an error, once the deadline is reached.
  Second part: when the queries before query \<open>j\<close> held no event and query \<open>j\<close>, sent before
  the deadline, holds the events \<open>evs\<close>, these are returned at once; each of the \<open>j + 1\<close>
  queries asked for the window from \<open>filter.startTime\<close> to the time it was sent at, and each
  query after the first was sent 1000 ms after the answer to the one before.
\<close>

theorem getLogEvents_outcomes:
  "((\<forall>i. now (queries_after R fn f i w) - startTime f < 30000 \<longrightarrow>
         (\<exists>resp. query_result R fn f i w = Inr resp \<and> no_events resp))
    \<longrightarrow> (\<exists>j. getLogEvents R fn f w = (Inr [], queries_after R fn f j w) \<and>
             30000 \<le> now (queries_after R fn f j w) - startTime f \<and>
             (\<forall>i<j. now (queries_after R fn f i w) - startTime f < 30000))) \<and>
   ((\<forall>i<j. \<exists>resp. query_result R fn f i w = Inr resp \<and> no_events resp) \<and>
    query_result R fn f j w = Inr resp \<and> events resp = Some evs \<and> evs \<noteq> [] \<and>
    now (queries_after R fn f j w) - startTime f < 30000
    \<longrightarrow> getLogEvents R fn f w = (Inr evs, snd (query R fn f (queries_after R fn f j w))) \<and>
        sent (snd (query R fn f (queries_after R fn f j w)))
          = sent w @ map (\<lambda>i. (now (queries_after R fn f i w),
                                FilterLogEventsCommand (''/aws/lambda/'' @ fn) (filterPattern f)
                                  (startTime f) (now (queries_after R fn f i w)))) [0..<Suc j] \<and>
        (\<forall>i<j. now (queries_after R fn f (Suc i) w)
                 = now (snd (query R fn f (queries_after R fn f i w))) + 1000))"
proof (intro conjI impI)
  assume "\<forall>i. now (queries_after R fn f i w) - startTime f < 30000 \<longrightarrow>
         (\<exists>resp. query_result R fn f i w = Inr resp \<and> no_events resp)"
  then have "\<exists>j. getLogEvents_loop R fn f (startTime f) 30000 w
                  = (Inr [], queries_after R fn f j w) \<and>
             30000 \<le> now (queries_after R fn f j w) - startTime f \<and>
             (\<forall>i<j. now (queries_after R fn f i w) - startTime f < 30000)"
    by (rule logs_never_found)
  then show "\<exists>j. getLogEvents R fn f w = (Inr [], queries_after R fn f j w) \<and>
             30000 \<le> now (queries_after R fn f j w) - startTime f \<and>
             (\<forall>i<j. now (queries_after R fn f i w) - startTime f < 30000)"
    by (simp add: getLogEvents_def)
next
  assume a: "(\<forall>i<j. \<exists>resp. query_result R fn f i w = Inr resp \<and> no_events resp) \<and>
    query_result R fn f j w = Inr resp \<and> events resp = Some evs \<and> evs \<noteq> [] \<and>
    now (queries_after R fn f j w) - startTime f < 30000"
  have "\<forall>i<j. now (queries_after R fn f i w) - startTime f < 30000 \<and>
          (\<exists>resp. query_result R fn f i w = Inr resp \<and> no_events resp)"
  proof (intro allI impI)
    fix i assume i: "i < j"
    then have "now (queries_after R fn f i w) \<le> now (queries_after R fn f j w)"
      by (intro now_queries_after_le) simp
    with a i show "now (queries_after R fn f i w) - startTime f < 30000 \<and>
          (\<exists>resp. query_result R fn f i w = Inr resp \<and> no_events resp)"
      by auto
  qed
  then have "getLogEvents_loop R fn f (startTime f) 30000 w =
      getLogEvents_loop R fn f (startTime f) 30000 (queries_after R fn f j w)"
    by (rule logs_skip)
  also have "\<dots> = (Inr evs, snd (query R fn f (queries_after R fn f j w)))"
    using a by (intro logs_found [where resp = resp]) (simp_all add: query_result_def)
  finally show "getLogEvents R fn f w = (Inr evs, snd (query R fn f (queries_after R fn f j w)))"
    by (simp add: getLogEvents_def)
  show "sent (snd (query R fn f (queries_after R fn f j w)))
          = sent w @ map (\<lambda>i. (now (queries_after R fn f i w),
                                FilterLogEventsCommand (''/aws/lambda/'' @ fn) (filterPattern f)
                                  (startTime f) (now (queries_after R fn f i w)))) [0..<Suc j]"
    by (simp add: sent_query sent_queries_after)
  show "\<forall>i<j. now (queries_after R fn f (Suc i) w)
                 = now (snd (query R fn f (queries_after R fn f i w))) + 1000"
    by (simp add: queries_after_Suc setTimeout_def del: queries_after.simps)
qed

theorem getLogEvents_outcomes_witness:
  "(\<exists>j. getLogEvents (logged_from 99) ''fn'' flt w0
           = (Inr [], queries_after (logged_from 99) ''fn'' flt j w0) \<and>
         30000 \<le> now (queries_after (logged_from 99) ''fn'' flt j w0)) \<and>
   getLogEvents (logged_from 2) ''fn'' flt w0
     = (Inr [ev],
        \<lparr>now = 2600,
         sent = [(0, FilterLogEventsCommand ''/aws/lambda/fn'' ''hello-test-42'' 0 0),
                 (1200, FilterLogEventsCommand ''/aws/lambda/fn'' ''hello-test-42'' 0 1200),
                 (2400, FilterLogEventsCommand ''/aws/lambda/fn'' ''hello-test-42'' 0 2400)]\<rparr>)"
proof -
  have len: "length (sent (queries_after R ''fn'' flt i w0)) = i" for R i
    by (simp add: sent_queries_after w0_def)
  have at: "now (queries_after (logged_from 99) ''fn'' flt i w0) = 1200 * int i" for i
  proof (induction i)
    case 0
    show ?case by (simp add: w0_def)
  next
    case (Suc i)
    then show ?case
      by (simp add: queries_after_Suc now_query setTimeout_def logged_from_def
          del: queries_after.simps)
  qed
  have h1: "\<forall>i. now (queries_after (logged_from 99) ''fn'' flt i w0) - startTime flt < 30000 \<longrightarrow>
         (\<exists>resp. query_result (logged_from 99) ''fn'' flt i w0 = Inr resp \<and> no_events resp)"
  proof (intro allI impI)
    fix i
    assume "now (queries_after (logged_from 99) ''fn'' flt i w0) - startTime flt < 30000"
    then have "1200 * int i < 30000"
      by (simp add: at) (simp add: flt_def)
    then have "i < 99"
      by simp
    then show "\<exists>resp. query_result (logged_from 99) ''fn'' flt i w0 = Inr resp \<and> no_events resp"
      by (simp add: query_result_def query_def send_def len logged_from_def no_events_def)
  qed
  have q0: "query_result (logged_from 2) ''fn'' flt 0 w0
              = Inr \<lparr>Messages = None, MessageId = None, events = Some []\<rparr>"
    and q1: "query_result (logged_from 2) ''fn'' flt (Suc 0) w0
              = Inr \<lparr>Messages = None, MessageId = None, events = Some []\<rparr>"
    and q2: "query_result (logged_from 2) ''fn'' flt 2 w0
              = Inr \<lparr>Messages = None, MessageId = None, events = Some [ev]\<rparr>"
    and v2: "queries_after (logged_from 2) ''fn'' flt 2 w0
               = \<lparr>now = 2400,
         sent = [(0, FilterLogEventsCommand ''/aws/lambda/fn'' ''hello-test-42'' 0 0),
                 (1200, FilterLogEventsCommand ''/aws/lambda/fn'' ''hello-test-42'' 0 1200)]\<rparr>"
    and v3: "snd (query (logged_from 2) ''fn'' flt (queries_after (logged_from 2) ''fn'' flt 2 w0))
               = \<lparr>now = 2600,
         sent = [(0, FilterLogEventsCommand ''/aws/lambda/fn'' ''hello-test-42'' 0 0),
                 (1200, FilterLogEventsCommand ''/aws/lambda/fn'' ''hello-test-42'' 0 1200),
                 (2400, FilterLogEventsCommand ''/aws/lambda/fn'' ''hello-test-42'' 0 2400)]\<rparr>"
    by (simp_all add: query_result_def query_def send_def logged_from_def
        setTimeout_def w0_def flt_def eval_nat_numeral)
  have h2: "\<forall>i<2. \<exists>resp. query_result (logged_from 2) ''fn'' flt i w0 = Inr resp \<and> no_events resp"
    by (auto simp: less_2_cases_iff q0 q1 no_events_def)
  have h3: "events \<lparr>Messages = None, MessageId = None, events = Some [ev]\<rparr> = Some [ev] \<and> [ev] \<noteq> []"
    by simp
  have h4: "now (queries_after (logged_from 2) ''fn'' flt 2 w0) - startTime flt < 30000"
    by (simp add: v2) (simp add: flt_def)
  from getLogEvents_outcomes [of "logged_from 99" "''fn''" flt w0 0
      "\<lparr>Messages = None, MessageId = None, events = None\<rparr>" "[]", THEN conjunct1, THEN mp, OF h1]
  have a: "\<exists>j. getLogEvents (logged_from 99) ''fn'' flt w0
           = (Inr [], queries_after (logged_from 99) ''fn'' flt j w0) \<and>
         30000 \<le> now (queries_after (logged_from 99) ''fn'' flt j w0)"
    by (auto simp: flt_def)
  from getLogEvents_outcomes [of "logged_from 2" "''fn''" flt w0 2
      "\<lparr>Messages = None, MessageId = None, events = Some [ev]\<rparr>" "[ev]", THEN conjunct2]
    h2 q2 h3 h4
  have b: "getLogEvents (logged_from 2) ''fn'' flt w0
     = (Inr [ev],
        \<lparr>now = 2600,
         sent = [(0, FilterLogEventsCommand ''/aws/lambda/fn'' ''hello-test-42'' 0 0),
                 (1200, FilterLogEventsCommand ''/aws/lambda/fn'' ''hello-test-42'' 0 1200),
                 (2400, FilterLogEventsCommand ''/aws/lambda/fn'' ''hello-test-42'' 0 2400)]\<rparr>)"
    by (simp add: v3)
  from a b show ?thesis ..
qed

subsection \<open>How long the pollers run\<close>

lemma now_queries_after_Suc_eq:
  "now (queries_after R fn f (Suc j) w) =
     now (snd (query R fn f (queries_after R fn f j w))) + 1000"
  by (simp add: queries_after_Suc setTimeout_def del: queries_after.simps)

lemma now_query_bound:
  assumes "\<forall>k c. fst (R k c) \<le> B"
  shows "now (snd (query R fn f w)) \<le> now w + int B"
  using assms by (simp add: now_query)

text \<open>
  C1, as claimed: a call with timeout \<open>T\<close> returns or throws no later than \<open>T\<close> after it was
  invoked, the queue poller's initial delay included. With \<open>T = 2000\<close> the queue poller
  throws its timeout error 10000 ms after the call: the initial delay alone is 10000 ms.
\<close>

theorem waitForLambdaProcessing_past_timeout_counterexample:
  "waitForLambdaProcessing (holding 5) ''q'' 0 2000 w0
     = Some (Inl (Error ''Timeout waiting for Lambda processing. Expected 0 messages''),
             \<lparr>now = 10000, sent = []\<rparr>)"
  by (simp add: waitForLambdaProcessing_def waitForLambdaProcessing_loop.simps
      setTimeout_def w0_def show_int_0)

text \<open>
  C1, amended. \<open>waitForLambdaProcessing\<close>, when every read takes at least a millisecond,
  ends; it ends no earlier than 10000 ms after the call; every read it sent was sent at
  least 10000 ms and less than \<open>T\<close> ms after the call; and when no read takes more than \<open>B\<close>
  ms it ends no later than \<open>max 10000 (T + B)\<close> ms after the call. \<open>getLogEvents\<close>, called
  with \<open>filter.startTime\<close> not after the call, sent every query less than 30000 ms after
  the call, and when no query takes more than \<open>B\<close> ms it ends no later than \<open>31000 + B\<close> ms
  after the call.
\<close>

theorem pollers_run_time:
  "((\<forall>k c. 0 < fst (R k c)) \<longrightarrow>
      (\<exists>r w'. waitForLambdaProcessing R q n T w = Some (r, w') \<and>
          now w + 10000 \<le> now w' \<and>
          (\<forall>(s, c) \<in> set (drop (length (sent w)) (sent w')). now w + 10000 \<le> s \<and> s - now w < T) \<and>
          ((\<forall>k c. fst (R k c) \<le> B) \<longrightarrow> now w' - now w \<le> max 10000 (T + int B)))) \<and>
   (startTime f \<le> now w \<longrightarrow>
      (\<forall>(s, c) \<in> set (drop (length (sent w)) (sent (snd (getLogEvents R fn f w)))).
          s - now w < 30000) \<and>
      ((\<forall>k c. fst (R k c) \<le> B) \<longrightarrow>
          now (snd (getLogEvents R fn f w)) - now w \<le> 31000 + int B))"
proof (intro conjI impI)
  let ?w1 = "setTimeout 10000 w"
  assume pos: "\<forall>k c. 0 < fst (R k c)"
  from loop_total [OF pos, of q n T "now w" ?w1] obtain r j where
    run: "waitForLambdaProcessing_loop R q n T (now w) ?w1 = Some (r, reads_after R q j ?w1)"
    and before: "\<forall>i<j. now (reads_after R q i ?w1) - now w < T"
    by blast
  have w1: "now ?w1 = now w + 10000" "sent ?w1 = sent w"
    by (simp_all add: setTimeout_def)
  have a: "waitForLambdaProcessing R q n T w = Some (r, reads_after R q j ?w1)"
    using run by (simp add: waitForLambdaProcessing_def)
  have b: "now w + 10000 \<le> now (reads_after R q j ?w1)"
    using now_reads_after_mono [of ?w1 R q j] w1 by simp
  have c: "\<forall>(s, c) \<in> set (drop (length (sent w)) (sent (reads_after R q j ?w1))).
             now w + 10000 \<le> s \<and> s - now w < T"
  proof -
    have "drop (length (sent w)) (sent (reads_after R q j ?w1)) =
        map (\<lambda>i. (now (reads_after R q i ?w1), ReceiveMessageCommand q 10 1)) [0..<j]"
      by (simp add: sent_reads_after w1)
    moreover have "now w + 10000 \<le> now (reads_after R q i ?w1)" for i
      using now_reads_after_mono [of ?w1 R q i] w1 by simp
    ultimately show ?thesis
      using before by auto
  qed
  have d: "(\<forall>k c. fst (R k c) \<le> B) \<longrightarrow>
      now (reads_after R q j ?w1) - now w \<le> max 10000 (T + int B)"
  proof
    assume B: "\<forall>k c. fst (R k c) \<le> B"
    show "now (reads_after R q j ?w1) - now w \<le> max 10000 (T + int B)"
    proof (cases j)
      case 0
      then show ?thesis by (simp add: w1)
    next
      case (Suc j')
      with before have "now (reads_after R q j' ?w1) - now w < T"
        by simp
      moreover have "now (reads_after R q (Suc j') ?w1) \<le> now (reads_after R q j' ?w1) + int B"
        using B by (rule now_reads_after_bound)
      ultimately show ?thesis
        using Suc by simp
    qed
  qed
  from a b c d
  show "\<exists>r w'. waitForLambdaProcessing R q n T w = Some (r, w') \<and>
          now w + 10000 \<le> now w' \<and>
          (\<forall>(s, c) \<in> set (drop (length (sent w)) (sent w')). now w + 10000 \<le> s \<and> s - now w < T) \<and>
          ((\<forall>k c. fst (R k c) \<le> B) \<longrightarrow> now w' - now w \<le> max 10000 (T + int B))"
    by blast
next
  assume st: "startTime f \<le> now w"
  let ?t0 = "startTime f"
  let ?cmd = "\<lambda>i. (now (queries_after R fn f i w),
                   FilterLogEventsCommand (''/aws/lambda/'' @ fn) (filterPattern f)
                     (startTime f) (now (queries_after R fn f i w)))"
  from logs_total [of R fn f w ?t0 30000] obtain r j where
    before: "\<forall>i<j. now (queries_after R fn f i w) - ?t0 < 30000"
    and run: "getLogEvents_loop R fn f ?t0 30000 w = (r, queries_after R fn f j w) \<or>
          (getLogEvents_loop R fn f ?t0 30000 w = (r, snd (query R fn f (queries_after R fn f j w))) \<and>
           now (queries_after R fn f j w) - ?t0 < 30000)"
    by blast
  have g: "getLogEvents R fn f w = getLogEvents_loop R fn f ?t0 30000 w"
    by (simp add: getLogEvents_def)
  from run show "\<forall>(s, c) \<in> set (drop (length (sent w)) (sent (snd (getLogEvents R fn f w)))).
          s - now w < 30000"
  proof
    assume "getLogEvents_loop R fn f ?t0 30000 w = (r, queries_after R fn f j w)"
    then have "drop (length (sent w)) (sent (snd (getLogEvents R fn f w))) = map ?cmd [0..<j]"
      by (simp add: g sent_queries_after)
    then show ?thesis
      using before st by auto
  next
    assume e: "getLogEvents_loop R fn f ?t0 30000 w
                 = (r, snd (query R fn f (queries_after R fn f j w))) \<and>
               now (queries_after R fn f j w) - ?t0 < 30000"
    then have "drop (length (sent w)) (sent (snd (getLogEvents R fn f w))) = map ?cmd [0..<Suc j]"
      by (simp add: g sent_query sent_queries_after)
    moreover have "\<forall>i<Suc j. now (queries_after R fn f i w) - ?t0 < 30000"
      using before e by (auto simp: less_Suc_eq)
    ultimately show ?thesis
      using st by (auto simp del: upt_Suc)
  qed
  assume B: "\<forall>k c. fst (R k c) \<le> B"
  from run show "now (snd (getLogEvents R fn f w)) - now w \<le> 31000 + int B"
  proof
    assume e: "getLogEvents_loop R fn f ?t0 30000 w = (r, queries_after R fn f j w)"
    show ?thesis
    proof (cases j)
      case 0
      with e show ?thesis by (simp add: g)
    next
      case (Suc j')
      with before have "now (queries_after R fn f j' w) - ?t0 < 30000"
        by simp
      moreover have "now (snd (query R fn f (queries_after R fn f j' w)))
          \<le> now (queries_after R fn f j' w) + int B"
        using B by (rule now_query_bound)
      ultimately show ?thesis
        using e Suc st by (simp add: g now_queries_after_Suc_eq del: queries_after.simps)
    qed
  next
    assume e: "getLogEvents_loop R fn f ?t0 30000 w
                 = (r, snd (query R fn f (queries_after R fn f j w))) \<and>
               now (queries_after R fn f j w) - ?t0 < 30000"
    moreover have "now (snd (query R fn f (queries_after R fn f j w)))
          \<le> now (queries_after R fn f j w) + int B"
      using B by (rule now_query_bound)
    ultimately show ?thesis
      using st by (simp add: g)
  qed
qed

theorem pollers_run_time_witness:
  "(\<forall>k c. 0 < fst (holding 5 k c)) \<and> (\<forall>k c. fst (holding 5 k c) \<le> 1000) \<and>
   startTime flt \<le> now w0 \<and>
   (\<exists>r w'. waitForLambdaProcessing (holding 5) ''q'' 0 12000 w0 = Some (r, w') \<and>
       now w0 + 10000 \<le> now w' \<and> now w' - now w0 \<le> 13000) \<and>
   now (snd (getLogEvents (holding 5) ''fn'' flt w0)) - now w0 \<le> 32000"
proof -
  have h1: "\<forall>k c. 0 < fst (holding 5 k c)"
    by (rule holding_pos)
  have h2: "\<forall>k c. fst (holding 5 k c) \<le> 1000"
    by (simp add: holding_def)
  have h3: "startTime flt \<le> now w0"
    by (simp add: flt_def w0_def)
  note t = pollers_run_time [of "holding 5" "''q''" 0 12000 w0 1000 flt "''fn''"]
  from t h1 h2 obtain r w' where
    "waitForLambdaProcessing (holding 5) ''q'' 0 12000 w0 = Some (r, w')"
    "now w0 + 10000 \<le> now w'" "now w' - now w0 \<le> max 10000 (12000 + int 1000)"
    by blast
  then have a: "\<exists>r w'. waitForLambdaProcessing (holding 5) ''q'' 0 12000 w0 = Some (r, w') \<and>
       now w0 + 10000 \<le> now w' \<and> now w' - now w0 \<le> 13000"
    by auto
  from t h2 h3 have b: "now (snd (getLogEvents (holding 5) ''fn'' flt w0)) - now w0 \<le> 32000"
    by simp
  from h1 h2 h3 a b show ?thesis
    by blast
qed

subsection \<open>purgeQueue\<close>

lemma purgeQueue_for_accepts:
  "accepts R (deletions q ms) w \<Longrightarrow>
     purgeQueue_for R q ms w = (Inr (), after_sends R (deletions q ms) w)"
proof (induction ms arbitrary: w)
  case Nil
  show ?case by (simp add: deletions_def)
next
  case (Cons m ms)
  let ?c = "DeleteMessageCommand q (ReceiptHandle m)"
  obtain r w' where s: "send R ?c w = (r, w')"
    by (cases "send R ?c w")
  from Cons.prems s have a: "answered r" and rest: "accepts R (deletions q ms) w'"
    by (simp_all add: accepts_def deletions_def)
  from a obtain resp where r: "r = Inr resp"
    by (auto simp: answered_iff)
  from s r have d: "deleteMessage R q (ReceiptHandle m) w = (Inr (), w')"
    by (simp add: deleteMessage_def)
  from Cons.IH [OF rest] d s show ?case
    by (simp add: deletions_def)
qed

lemma after_sends_round:
  "after_sends R (round_commands q ms) w =
     after_sends R (deletions q ms) (snd (send R (ReceiveMessageCommand q 10 1) w))"
  by (simp add: round_commands_def)

lemma purgeQueue_while_serves:
  "ms \<noteq> [] \<Longrightarrow> accepts R (deletions q ms) w \<Longrightarrow>
   serves R q bs (after_sends R (deletions q ms) w) \<Longrightarrow>
     purgeQueue_while R q ms w =
       Some (Inr (), after_sends R (deletions q ms @ concat (map (round_commands q) bs)
                                     @ [ReceiveMessageCommand q 10 1]) w)"
proof (induction bs arbitrary: ms w)
  case Nil
  let ?w1 = "after_sends R (deletions q ms) w"
  let ?rc = "ReceiveMessageCommand q 10 1"
  from Nil.prems have "answered (fst (send R ?rc ?w1))" "batch_of (fst (send R ?rc ?w1)) = []"
    by simp_all
  then have rm: "receiveMessages R q 10 ?w1 = (Inr [], snd (send R ?rc ?w1))"
    using receiveMessages_answered [of R q 10 ?w1] by simp
  have "purgeQueue_while R q ms w = purgeQueue_while R q [] (snd (send R ?rc ?w1))"
    using Nil.prems(1) purgeQueue_for_accepts [OF Nil.prems(2)] rm
    by (simp add: purgeQueue_while.simps [of R q ms w])
  also have "\<dots> = Some (Inr (), snd (send R ?rc ?w1))"
    by (simp add: purgeQueue_while.simps)
  finally show ?case
    by (simp add: after_sends_append)
next
  case (Cons b bs)
  let ?w1 = "after_sends R (deletions q ms) w"
  let ?rc = "ReceiveMessageCommand q 10 1"
  let ?w2 = "snd (send R ?rc ?w1)"
  from Cons.prems(3) have b: "b \<noteq> []" "answered (fst (send R ?rc ?w1))"
      "batch_of (fst (send R ?rc ?w1)) = b" "accepts R (deletions q b) ?w2"
      "serves R q bs (after_sends R (round_commands q b) ?w1)"
    by simp_all
  from b(2,3) have rm: "receiveMessages R q 10 ?w1 = (Inr b, ?w2)"
    using receiveMessages_answered [of R q 10 ?w1] by simp
  have "purgeQueue_while R q ms w = purgeQueue_while R q b ?w2"
    using Cons.prems(1) purgeQueue_for_accepts [OF Cons.prems(2)] rm
    by (simp add: purgeQueue_while.simps [of R q ms w])
  also have "\<dots> = Some (Inr (), after_sends R (deletions q b @ concat (map (round_commands q) bs)
                                     @ [?rc]) ?w2)"
    using b(1,4,5) by (intro Cons.IH) (simp_all add: after_sends_round)
  finally show ?case
    by (simp add: after_sends_append after_sends_round)
qed

lemma purgeQueue_serves:
  assumes "serves R q bs w"
  shows "purgeQueue R q w =
           Some (Inr (), after_sends R (concat (map (round_commands q) bs)
                                         @ [ReceiveMessageCommand q 10 1]) w)"
proof (cases bs)
  case Nil
  let ?rc = "ReceiveMessageCommand q 10 1"
  from assms Nil have "answered (fst (send R ?rc w))" "batch_of (fst (send R ?rc w)) = []"
    by simp_all
  then have "receiveMessages R q 10 w = (Inr [], snd (send R ?rc w))"
    using receiveMessages_answered [of R q 10 w] by simp
  with Nil show ?thesis
    by (simp add: purgeQueue_def purgeQueue_while.simps)
next
  case (Cons b bs')
  let ?rc = "ReceiveMessageCommand q 10 1"
  let ?w2 = "snd (send R ?rc w)"
  from assms Cons have b: "b \<noteq> []" "answered (fst (send R ?rc w))"
      "batch_of (fst (send R ?rc w)) = b" "accepts R (deletions q b) ?w2"
      "serves R q bs' (after_sends R (round_commands q b) w)"
    by simp_all
  from b(2,3) have rm: "receiveMessages R q 10 w = (Inr b, ?w2)"
    using receiveMessages_answered [of R q 10 w] by simp
  have "purgeQueue R q w = purgeQueue_while R q b ?w2"
    using rm by (simp add: purgeQueue_def)
  also have "\<dots> = Some (Inr (), after_sends R (deletions q b @ concat (map (round_commands q) bs')
                                     @ [?rc]) ?w2)"
    using b(1,4,5) by (intro purgeQueue_while_serves) (simp_all add: after_sends_round)
  finally show ?thesis
    using Cons by (simp add: after_sends_append after_sends_round)
qed

text \<open>
  C7. The hypotheses speak of the remote side only: what it answers to the requests, sent
  one after the other. First part (idempotence): when the remote answers the first read
  with no entry, \<open>purgeQueue\<close> returns right after it, and that one read is the only
  request it has sent: no deletion. Second part (the loop): when the remote answers the
  reads with the batches \<open>bs\<close> in turn, none of them empty, then with an empty batch, and
  answers every deletion, \<open>purgeQueue\<close> returns normally after having sent exactly, for each
  batch in turn, the read and then one deletion for each entry of the batch in order, and
  last the read that was answered with no entry.
\<close>

theorem purgeQueue_rounds_until_empty:
  "(answered (fst (send R (ReceiveMessageCommand q 10 1) w)) \<and>
    batch_of (fst (send R (ReceiveMessageCommand q 10 1) w)) = []
    \<longrightarrow> purgeQueue R q w = Some (Inr (), snd (send R (ReceiveMessageCommand q 10 1) w)) \<and>
        sent (snd (send R (ReceiveMessageCommand q 10 1) w))
          = sent w @ [(now w, ReceiveMessageCommand q 10 1)]) \<and>
   (serves R q bs w
    \<longrightarrow> purgeQueue R q w =
          Some (Inr (), after_sends R (concat (map (round_commands q) bs)
                                        @ [ReceiveMessageCommand q 10 1]) w) \<and>
        map snd (sent (after_sends R (concat (map (round_commands q) bs)
                                        @ [ReceiveMessageCommand q 10 1]) w))
          = map snd (sent w) @ concat (map (round_commands q) bs)
              @ [ReceiveMessageCommand q 10 1])"
proof (intro conjI impI)
  assume a: "answered (fst (send R (ReceiveMessageCommand q 10 1) w)) \<and>
    batch_of (fst (send R (ReceiveMessageCommand q 10 1) w)) = []"
  then have "serves R q [] w"
    by simp
  from purgeQueue_serves [OF this]
  show "purgeQueue R q w = Some (Inr (), snd (send R (ReceiveMessageCommand q 10 1) w))"
    by simp
  show "sent (snd (send R (ReceiveMessageCommand q 10 1) w))
          = sent w @ [(now w, ReceiveMessageCommand q 10 1)]"
    by (simp add: send_def split: prod.splits)
next
  assume "serves R q bs w"
  then show "purgeQueue R q w =
          Some (Inr (), after_sends R (concat (map (round_commands q) bs)
                                        @ [ReceiveMessageCommand q 10 1]) w)"
    by (rule purgeQueue_serves)
  show "map snd (sent (after_sends R (concat (map (round_commands q) bs)
                                        @ [ReceiveMessageCommand q 10 1]) w))
          = map snd (sent w) @ concat (map (round_commands q) bs)
              @ [ReceiveMessageCommand q 10 1]"
    by (rule commands_after_sends)
qed

theorem purgeQueue_rounds_until_empty_witness:
  "purgeQueue (drained_from 0) ''q'' w0
     = Some (Inr (), \<lparr>now = 1000, sent = [(0, ReceiveMessageCommand ''q'' 10 1)]\<rparr>) \<and>
   serves (drained_from 3) ''q'' [[msg], [msg]] w0 \<and>
   purgeQueue (drained_from 3) ''q'' w0
     = Some (Inr (), \<lparr>now = 5000,
                      sent = [(0, ReceiveMessageCommand ''q'' 10 1),
                              (1000, DeleteMessageCommand ''q'' (Some ''h'')),
                              (2000, ReceiveMessageCommand ''q'' 10 1),
                              (3000, DeleteMessageCommand ''q'' (Some ''h'')),
                              (4000, ReceiveMessageCommand ''q'' 10 1)]\<rparr>)"
proof -
  let ?R = "drained_from 3"
  have s0: "send (drained_from 0) (ReceiveMessageCommand ''q'' 10 1) w0
              = (Inr \<lparr>Messages = None, MessageId = None, events = None\<rparr>,
                 \<lparr>now = 1000, sent = [(0, ReceiveMessageCommand ''q'' 10 1)]\<rparr>)"
    by (simp add: send_def drained_from_def w0_def)
  have sv: "serves ?R ''q'' [[msg], [msg]] w0"
    by (simp add: round_commands_def deletions_def accepts_def answered_def batch_of_def
        send_def drained_from_def w0_def msg_def)
  have tr: "after_sends ?R (concat (map (round_commands ''q'') [[msg], [msg]])
                              @ [ReceiveMessageCommand ''q'' 10 1]) w0
     = \<lparr>now = 5000,
        sent = [(0, ReceiveMessageCommand ''q'' 10 1),
                (1000, DeleteMessageCommand ''q'' (Some ''h'')),
                (2000, ReceiveMessageCommand ''q'' 10 1),
                (3000, DeleteMessageCommand ''q'' (Some ''h'')),
                (4000, ReceiveMessageCommand ''q'' 10 1)]\<rparr>"
    by (simp add: round_commands_def deletions_def send_def drained_from_def w0_def msg_def)
  from purgeQueue_rounds_until_empty [of "drained_from 0" "''q''" w0 "[]", THEN conjunct1] s0
  have a1: "purgeQueue (drained_from 0) ''q'' w0
     = Some (Inr (), \<lparr>now = 1000, sent = [(0, ReceiveMessageCommand ''q'' 10 1)]\<rparr>)"
    by (simp add: answered_def batch_of_def)
  from purgeQueue_rounds_until_empty [of ?R "''q''" w0 "[[msg], [msg]]", THEN conjunct2] sv tr
  have a3: "purgeQueue ?R ''q'' w0
     = Some (Inr (), \<lparr>now = 5000,
                      sent = [(0, ReceiveMessageCommand ''q'' 10 1),
                              (1000, DeleteMessageCommand ''q'' (Some ''h'')),
                              (2000, ReceiveMessageCommand ''q'' 10 1),
                              (3000, DeleteMessageCommand ''q'' (Some ''h'')),
                              (4000, ReceiveMessageCommand ''q'' 10 1)]\<rparr>)"
    by simp
  from a1 sv a3 show ?thesis
    by blast
qed

subsection \<open>The batches of testLoadPerformance\<close>

lemma batch_count_step:
  assumes "0 < b" and "i < k"
  shows "(k - i + b - 1) div b = Suc ((k - (i + b) + b - 1) div b)"
proof (cases "i + b \<le> k")
  case True
  define a where "a = k - (i + b) + b - 1"
  have "k - i + b - 1 = a + b"
    using assms True by (simp add: a_def)
  moreover have "(a + b) div b = Suc (a div b)"
    using assms by simp
  ultimately show ?thesis
    by (simp only: a_def)
next
  case False
  define a where "a = k - i - 1"
  have a: "a < b" "k - i + b - 1 = a + b"
    using assms False by (simp_all add: a_def)
  have "(a + b) div b = Suc (a div b)"
    using assms by simp
  also have "a div b = 0"
    using a(1) by simp
  finally have "(k - i + b - 1) div b = Suc 0"
    using a(2) by simp
  moreover have "k - (i + b) + b - 1 = b - 1"
    using False by simp
  moreover have "(b - 1) div b = 0"
    using assms by simp
  ultimately show ?thesis
    by simp
qed

lemma testLoadPerformance_for_closed:
  assumes "0 < b"
  shows "testLoadPerformance_for ms k b i acc =
         Some (acc @ map (\<lambda>j. slice (i + j * b) (i + j * b + b) ms) [0..<(k - i + b - 1) div b])"
proof (induction "k - i" arbitrary: i acc rule: less_induct)
  case less
  show ?case
  proof (cases "i < k")
    case False
    then have "(k - i + b - 1) div b = 0"
      using assms by simp
    with False show ?thesis
      by (subst testLoadPerformance_for.simps) simp
  next
    case True
    let ?n = "(k - (i + b) + b - 1) div b"
    have n: "(k - i + b - 1) div b = Suc ?n"
      using assms True by (rule batch_count_step)
    have "k - (i + b) < k - i"
      using assms True by simp
    then have "testLoadPerformance_for ms k b (i + b) (acc @ [slice i (i + b) ms]) =
         Some ((acc @ [slice i (i + b) ms]) @
               map (\<lambda>j. slice (i + b + j * b) (i + b + j * b + b) ms) [0..<?n])"
      by (rule less.hyps)
    moreover have "map (\<lambda>j. slice (i + j * b) (i + j * b + b) ms) [0..<Suc ?n] =
        slice i (i + b) ms # map (\<lambda>j. slice (i + b + j * b) (i + b + j * b + b) ms) [0..<?n]"
    proof -
      have "[0..<Suc ?n] = 0 # map Suc [0..<?n]"
        by (simp add: upt_conv_Cons map_Suc_upt del: upt_Suc)
      then show ?thesis
        by (simp add: comp_def algebra_simps del: upt_Suc)
    qed
    ultimately show ?thesis
      using True n by (subst testLoadPerformance_for.simps) simp
  qed
qed

lemma concat_slices:
  "concat (map (\<lambda>j. slice (j * b) (j * b + b) ms) [0..<n]) = take (n * b) ms"
proof (induction n)
  case 0
  show ?case by simp
next
  case (Suc n)
  have "take (n * b + b) ms = take (n * b) ms @ take b (drop (n * b) ms)"
    by (rule take_add)
  with Suc show ?case
    by (simp add: slice_def add.commute)
qed

lemma ceiling_batch:
  assumes "1 \<le> k" and "1 \<le> c"
  shows "1 \<le> nat \<lceil>of_nat k / of_nat c :: rat\<rceil>"
    and "k \<le> c * nat \<lceil>of_nat k / of_nat c :: rat\<rceil>"
proof -
  let ?x = "of_nat k / of_nat c :: rat"
  have pos: "0 < ?x"
    using assms by simp
  then have z: "0 < \<lceil>?x\<rceil>"
    by (simp add: less_ceiling_iff)
  then show "1 \<le> nat \<lceil>?x\<rceil>"
    by linarith
  have "?x * of_nat c \<le> of_int \<lceil>?x\<rceil> * (of_nat c :: rat)"
    by (intro mult_right_mono le_of_int_ceiling) simp
  moreover have "?x * of_nat c = of_nat k"
    using assms by simp
  ultimately have "of_nat k \<le> of_int \<lceil>?x\<rceil> * (of_nat c :: rat)"
    by (simp only:)
  then have "(of_int (int k) :: rat) \<le> of_int (\<lceil>?x\<rceil> * int c)"
    by simp
  then have "int k \<le> \<lceil>?x\<rceil> * int c"
    by (simp only: of_int_le_iff)
  moreover have "\<lceil>?x\<rceil> = int (nat \<lceil>?x\<rceil>)"
    using z by linarith
  ultimately have "int k \<le> int (nat \<lceil>?x\<rceil>) * int c"
    by simp
  then have "int k \<le> int (nat \<lceil>?x\<rceil> * c)"
    by (simp only: of_nat_mult)
  then show "k \<le> c * nat \<lceil>?x\<rceil>"
    by (simp only: of_nat_le_iff mult.commute)
qed

lemma append_separator_eq:
  assumes "c \<notin> set xs" and "c \<notin> set ys" and "xs @ c # r = ys @ c # r'"
  shows "xs = ys"
proof -
  have "takeWhile (\<lambda>x. x \<noteq> c) (xs @ c # r) = xs @ takeWhile (\<lambda>x. x \<noteq> c) (c # r)"
    using assms(1) by (intro takeWhile_append2) auto
  moreover
  have "takeWhile (\<lambda>x. x \<noteq> c) (ys @ c # r') = ys @ takeWhile (\<lambda>x. x \<noteq> c) (c # r')"
    using assms(2) by (intro takeWhile_append2) auto
  ultimately
  have "takeWhile (\<lambda>x. x \<noteq> c) (xs @ c # r) = xs" "takeWhile (\<lambda>x. x \<noteq> c) (ys @ c # r') = ys"
    by simp_all
  with assms(3) show ?thesis
    by simp
qed

lemma comma_not_in_show_nat: "CHR '','' \<notin> set (show_nat n)"
proof
  assume a: "CHR '','' \<in> set (show_nat n)"
  from show_nat_digits [OF a] obtain d where "d < 10" "CHR '','' = digit d"
    by (elim exE conjE)
  then show False
    using digit_not_comma [of d] by simp
qed

lemma stringify_id_timestamp_inj:
  assumes "stringify_id_timestamp i s = stringify_id_timestamp j t"
  shows "i = j"
proof -
  from assms
  have \<open>show_nat i @ '',"timestamp":"'' @ s @ ''"}'' = show_nat j @ '',"timestamp":"'' @ t @ ''"}''\<close>
    by (simp add: stringify_id_timestamp_def)
  then have "show_nat i = show_nat j"
    by simp (erule append_separator_eq [OF comma_not_in_show_nat comma_not_in_show_nat])
  then show ?thesis
    by (rule show_nat_inj)
qed

lemma distinct_testLoadPerformance_messages:
  "distinct (testLoadPerformance_messages ts k)"
proof -
  have "inj_on (\<lambda>i. \<lparr>body = stringify_id_timestamp i (ts i)\<rparr>) (set [0..<k])"
    by (rule inj_onI) (auto dest: stringify_id_timestamp_inj)
  then show ?thesis
    by (simp add: testLoadPerformance_messages_def distinct_map)
qed

lemma sendMessages_for_accepts:
  "accepts R (sends q g) w \<Longrightarrow>
     sendMessages_for R q g acc w =
       (Inr (acc @ map id_of (replies R (sends q g) w)), after_sends R (sends q g) w)"
proof (induction g arbitrary: acc w)
  case Nil
  show ?case by (simp add: sends_def)
next
  case (Cons m g)
  let ?c = "SendMessageCommand q (body m)"
  obtain r w' where s: "send R ?c w = (r, w')"
    by (cases "send R ?c w")
  from Cons.prems s have a: "answered r" and rest: "accepts R (sends q g) w'"
    by (simp_all add: accepts_def sends_def)
  from a obtain resp where r: "r = Inr resp"
    by (auto simp: answered_iff)
  from s r have d: "sendMessage R q m w = (Inr (id_of r), w')"
    by (simp add: sendMessage_def id_of_def)
  from Cons.IH [OF rest, of "acc @ [id_of r]"] d s show ?case
    by (simp add: sends_def)
qed

lemma sendMessages_for_rejected:
  "i < length g \<Longrightarrow> accepts R (sends q (take i g)) w \<Longrightarrow>
   fst (send R (SendMessageCommand q (body (g ! i))) (after_sends R (sends q (take i g)) w)) = Inl e \<Longrightarrow>
     sendMessages_for R q g acc w = (Inl e, after_sends R (sends q (take (Suc i) g)) w)"
proof (induction g arbitrary: i acc w)
  case Nil
  then show ?case by simp
next
  case (Cons m g)
  let ?c = "SendMessageCommand q (body m)"
  obtain r w' where s: "send R ?c w = (r, w')"
    by (cases "send R ?c w")
  show ?case
  proof (cases i)
    case 0
    with Cons.prems s have "r = Inl e"
      by (simp add: sends_def)
    with s 0 show ?thesis
      by (simp add: sendMessage_def sends_def)
  next
    case (Suc i')
    from Cons.prems s Suc have a: "answered r" and rest: "accepts R (sends q (take i' g)) w'"
      and i': "i' < length g"
      and rej: "fst (send R (SendMessageCommand q (body (g ! i')))
                       (after_sends R (sends q (take i' g)) w')) = Inl e"
      by (simp_all add: accepts_def sends_def)
    from a obtain resp where r: "r = Inr resp"
      by (auto simp: answered_iff)
    from s r have d: "sendMessage R q m w = (Inr (id_of r), w')"
      by (simp add: sendMessage_def id_of_def)
    from Cons.IH [OF i' rest rej, of "acc @ [id_of r]"] d s Suc show ?thesis
      by (simp add: sends_def)
  qed
qed

lemma batch_count_bounds:
  fixes b k :: nat
  assumes "0 < b" and "1 \<le> k"
  shows "1 \<le> (k + b - 1) div b"
    and "k \<le> (k + b - 1) div b * b"
    and "((k + b - 1) div b - 1) * b < k"
proof -
  define n where "n = (k + b - 1) div b"
  define r where "r = (k + b - 1) mod b"
  have split: "n * b + r = k + b - 1"
    unfolding n_def r_def by (rule div_mult_mod_eq)
  have r: "r < b"
    unfolding r_def using assms by simp
  have "b \<le> k + b - 1"
    using assms by simp
  then have "b div b \<le> n"
    unfolding n_def by (rule div_le_mono)
  then have one: "1 \<le> n"
    using assms by simp
  then obtain n' where n': "n = Suc n'"
    by (cases n) simp_all
  from split r have "k \<le> n * b"
    by linarith
  moreover from split r n' assms have "n' * b < k"
    by simp
  ultimately show "1 \<le> (k + b - 1) div b" "k \<le> (k + b - 1) div b * b"
    "((k + b - 1) div b - 1) * b < k"
    using one n' unfolding n_def by simp_all
qed

lemma testLoadPerformance_batches_closed:
  assumes "1 \<le> k" and "1 \<le> c"
  shows "testLoadPerformance_batches ts k c =
         Some (map (\<lambda>j. slice (j * nat \<lceil>of_nat k / of_nat c :: rat\<rceil>)
                             (j * nat \<lceil>of_nat k / of_nat c :: rat\<rceil>
                                + nat \<lceil>of_nat k / of_nat c :: rat\<rceil>)
                             (testLoadPerformance_messages ts k))
                 [0..<(k + nat \<lceil>of_nat k / of_nat c :: rat\<rceil> - 1)
                        div nat \<lceil>of_nat k / of_nat c :: rat\<rceil>])"
proof -
  have "0 < nat \<lceil>of_nat k / of_nat c :: rat\<rceil>"
    using ceiling_batch(1) [OF assms] by linarith
  from testLoadPerformance_for_closed [OF this, of "testLoadPerformance_messages ts k" k 0 "[]"]
  show ?thesis
    using assms by (simp add: testLoadPerformance_batches_def Let_def)
qed

text \<open>
  C9. For \<open>k \<ge> 1\<close> messages and concurrency level \<open>c \<ge> 1\<close> the loop ends and hands
  \<open>sendMessages\<close> groups whose concatenation, in order, is the list of the \<open>k\<close> messages;
  there are at least one and at most \<open>c\<close> groups; every group but the last has
  \<open>\<lceil>k / c\<rceil>\<close> messages and the last has between 1 and \<open>\<lceil>k / c\<rceil>\<close>; no message is in two
  groups. And \<open>sendMessages\<close> sends one \<open>SendMessageCommand\<close> for each message of its
  group, one after the other and in order. The hypotheses speak of the remote side only:
  when it answers all of these requests, \<open>sendMessages\<close> returns the ids the answers
  carry, as many as the group has messages, and has sent exactly these requests; when it
  answers the first \<open>i\<close> of them and rejects the next with \<open>e\<close>, \<open>sendMessages\<close> throws
  \<open>e\<close> and has sent these \<open>i + 1\<close> requests and no other.
\<close>

theorem testLoadPerformance_groups:
  "(1 \<le> k \<and> 1 \<le> c \<longrightarrow>
      (\<exists>groups. testLoadPerformance_batches ts k c = Some groups \<and>
          concat groups = testLoadPerformance_messages ts k \<and>
          groups \<noteq> [] \<and> length groups \<le> c \<and>
          (\<forall>g \<in> set (butlast groups). length g = nat \<lceil>of_nat k / of_nat c :: rat\<rceil>) \<and>
          1 \<le> length (last groups) \<and>
          length (last groups) \<le> nat \<lceil>of_nat k / of_nat c :: rat\<rceil> \<and>
          (\<forall>i<length groups. \<forall>j<length groups. i \<noteq> j \<longrightarrow>
              set (groups ! i) \<inter> set (groups ! j) = {}))) \<and>
   (accepts R (sends q g) w \<longrightarrow>
      sendMessages R q g w =
        (Inr (map id_of (replies R (sends q g) w)), after_sends R (sends q g) w) \<and>
      length (map id_of (replies R (sends q g) w)) = length g \<and>
      map snd (sent (after_sends R (sends q g) w)) =
        map snd (sent w) @ map (\<lambda>m. SendMessageCommand q (body m)) g) \<and>
   (i < length g \<and> accepts R (sends q (take i g)) w \<and>
    fst (send R (SendMessageCommand q (body (g ! i))) (after_sends R (sends q (take i g)) w)) = Inl e
    \<longrightarrow>
      sendMessages R q g w = (Inl e, after_sends R (sends q (take (Suc i) g)) w) \<and>
      map snd (sent (after_sends R (sends q (take (Suc i) g)) w)) =
        map snd (sent w) @ map (\<lambda>m. SendMessageCommand q (body m)) (take (Suc i) g))"
proof (intro conjI impI)
  assume kc: "1 \<le> k \<and> 1 \<le> c"
  define b where "b = nat \<lceil>of_nat k / of_nat c :: rat\<rceil>"
  define n where "n = (k + b - 1) div b"
  define ms where "ms = testLoadPerformance_messages ts k"
  define G where "G = map (\<lambda>j. slice (j * b) (j * b + b) ms) [0..<n]"
  have b1: "1 \<le> b" and kcb: "k \<le> c * b"
    using ceiling_batch [of k c] kc by (simp_all add: b_def)
  then have b0: "0 < b"
    by linarith
  have n1: "1 \<le> n" and knb: "k \<le> n * b" and last_lt: "(n - 1) * b < k"
    using batch_count_bounds [OF b0, of k] kc by (simp_all add: n_def)
  have len_ms: "length ms = k"
    by (simp add: ms_def testLoadPerformance_messages_def)
  have res: "testLoadPerformance_batches ts k c = Some G"
    using testLoadPerformance_batches_closed [of k c ts] kc
    by (simp add: G_def n_def b_def ms_def)
  have cat: "concat G = ms"
    using knb len_ms by (simp add: G_def concat_slices)
  have len_G: "length G = n"
    by (simp add: G_def)
  have nc: "n \<le> c"
  proof (rule ccontr)
    assume "\<not> n \<le> c"
    then have "c \<le> n - 1"
      by simp
    then have "c * b \<le> (n - 1) * b"
      by (rule mult_le_mono1)
    with kcb last_lt show False
      by simp
  qed
  have nth_G: "G ! j = slice (j * b) (j * b + b) ms" if "j < n" for j
    using that by (simp add: G_def)
  have len_nth: "length (G ! j) = min b (k - j * b)" if "j < n" for j
    using that by (simp add: nth_G slice_def len_ms min.commute)
  have full: "length (G ! j) = b" if "j < n - 1" for j
  proof -
    have "Suc j \<le> n - 1"
      using that by simp
    then have "Suc j * b \<le> (n - 1) * b"
      by (rule mult_le_mono1)
    with last_lt have "j * b + b \<le> k"
      by simp
    moreover have "j < n"
      using that by simp
    ultimately show ?thesis
      by (simp add: len_nth)
  qed
  have butlast_G: "\<forall>g \<in> set (butlast G). length g = b"
  proof
    fix g assume "g \<in> set (butlast G)"
    then obtain j where j: "j < length (butlast G)" "g = butlast G ! j"
      by (auto simp: in_set_conv_nth)
    then have "j < n - 1"
      by (simp add: len_G)
    moreover from j have "g = G ! j"
      by (simp add: nth_butlast)
    ultimately show "length g = b"
      by (simp add: full)
  qed
  have G_ne: "G \<noteq> []"
    using n1 len_G by auto
  then have last_G: "last G = G ! (n - 1)"
    by (simp add: last_conv_nth len_G)
  have last_len: "1 \<le> length (last G)" "length (last G) \<le> b"
    using n1 last_lt b1 by (simp_all add: last_G len_nth)
  have no_Nil: "[] \<notin> set G"
  proof
    assume "[] \<in> set G"
    then obtain j where j: "j < n" "G ! j = []"
      by (auto simp: in_set_conv_nth len_G)
    then have "j \<le> n - 1"
      by simp
    then have "j * b \<le> (n - 1) * b"
      by (rule mult_le_mono1)
    then have "j * b < k"
      using last_lt by (rule le_less_trans)
    with j b0 len_nth [of j] show False
      by simp
  qed
  have "distinct (concat G)"
    using cat by (simp add: ms_def distinct_testLoadPerformance_messages)
  then have dG: "distinct (removeAll [] G)"
    and inter: "\<forall>ys zs. ys \<in> set G \<and> zs \<in> set G \<and> ys \<noteq> zs \<longrightarrow> set ys \<inter> set zs = {}"
    unfolding distinct_concat_iff by blast+
  from dG no_Nil have "distinct G"
    by (simp add: removeAll_id)
  then have disj: "\<forall>i<length G. \<forall>j<length G. i \<noteq> j \<longrightarrow> set (G ! i) \<inter> set (G ! j) = {}"
    using inter by (auto simp: distinct_conv_nth simp del: Int_iff)
  from res cat G_ne nc butlast_G last_len disj
  show "\<exists>groups. testLoadPerformance_batches ts k c = Some groups \<and>
          concat groups = testLoadPerformance_messages ts k \<and>
          groups \<noteq> [] \<and> length groups \<le> c \<and>
          (\<forall>g \<in> set (butlast groups). length g = nat \<lceil>of_nat k / of_nat c :: rat\<rceil>) \<and>
          1 \<le> length (last groups) \<and>
          length (last groups) \<le> nat \<lceil>of_nat k / of_nat c :: rat\<rceil> \<and>
          (\<forall>i<length groups. \<forall>j<length groups. i \<noteq> j \<longrightarrow>
              set (groups ! i) \<inter> set (groups ! j) = {})"
    unfolding b_def [symmetric] ms_def [symmetric] len_G
    by (intro exI [of _ G]) (simp add: len_G)
next
  assume "accepts R (sends q g) w"
  then show "sendMessages R q g w =
        (Inr (map id_of (replies R (sends q g) w)), after_sends R (sends q g) w)"
    using sendMessages_for_accepts [of R q g w "[]"] by (simp add: sendMessages_def)
  have "length (replies R cs w) = length cs" for cs
    by (induction cs arbitrary: w) simp_all
  then show "length (map id_of (replies R (sends q g) w)) = length g"
    by (simp add: sends_def)
  show "map snd (sent (after_sends R (sends q g) w)) =
        map snd (sent w) @ map (\<lambda>m. SendMessageCommand q (body m)) g"
    by (simp add: commands_after_sends sends_def)
next
  assume a: "i < length g \<and> accepts R (sends q (take i g)) w \<and>
    fst (send R (SendMessageCommand q (body (g ! i))) (after_sends R (sends q (take i g)) w)) = Inl e"
  then show "sendMessages R q g w = (Inl e, after_sends R (sends q (take (Suc i) g)) w)"
    using sendMessages_for_rejected [of i g R q w e "[]"] by (simp add: sendMessages_def)
  show "map snd (sent (after_sends R (sends q (take (Suc i) g)) w)) =
        map snd (sent w) @ map (\<lambda>m. SendMessageCommand q (body m)) (take (Suc i) g)"
    by (simp only: commands_after_sends sends_def)
qed

theorem testLoadPerformance_groups_witness:
  "(1 :: nat) \<le> 5 \<and> (1 :: nat) \<le> 2 \<and>
   (\<exists>groups. testLoadPerformance_batches iso0 5 2 = Some groups \<and>
       concat groups = testLoadPerformance_messages iso0 5 \<and>
       groups \<noteq> [] \<and> length groups \<le> 2 \<and>
       1 \<le> length (last groups) \<and> length (last groups) \<le> 3) \<and>
   accepts accepting (sends ''q'' [\<lparr>body = ''a''\<rparr>, \<lparr>body = ''b''\<rparr>]) w0 \<and>
   sendMessages accepting ''q'' [\<lparr>body = ''a''\<rparr>, \<lparr>body = ''b''\<rparr>] w0
     = (Inr [''0'', ''1''],
        \<lparr>now = 100, sent = [(0, SendMessageCommand ''q'' ''a''),
                            (50, SendMessageCommand ''q'' ''b'')]\<rparr>) \<and>
   sendMessages (failing_at 2) ''q'' [\<lparr>body = ''a''\<rparr>, \<lparr>body = ''b''\<rparr>, \<lparr>body = ''c''\<rparr>,
      \<lparr>body = ''d''\<rparr>] w0
     = (Inl (Rejected ''NetworkingError''),
        \<lparr>now = 3000, sent = [(0, SendMessageCommand ''q'' ''a''),
                             (1000, SendMessageCommand ''q'' ''b''),
                             (2000, SendMessageCommand ''q'' ''c'')]\<rparr>)"
proof -
  let ?g = "[\<lparr>body = ''a''\<rparr>, \<lparr>body = ''b''\<rparr>]"
  let ?h = "[\<lparr>body = ''a''\<rparr>, \<lparr>body = ''b''\<rparr>, \<lparr>body = ''c''\<rparr>,
      \<lparr>body = ''d''\<rparr>]"
  have "\<lceil>5 / 2 :: rat\<rceil> = 3"
    by (simp add: ceiling_eq_iff)
  then have c: "nat \<lceil>5 / 2 :: rat\<rceil> = 3"
    by (simp only: nat_numeral)
  have acc: "accepts accepting (sends ''q'' ?g) w0"
    by (simp add: accepts_def answered_def sends_def send_def accepting_def w0_def)
  have ids: "map id_of (replies accepting (sends ''q'' ?g) w0) = [''0'', ''1'']"
    by (simp add: id_of_def sends_def send_def accepting_def w0_def show_nat.simps digit_def)
  have aft: "after_sends accepting (sends ''q'' ?g) w0
      = \<lparr>now = 100, sent = [(0, SendMessageCommand ''q'' ''a''),
                            (50, SendMessageCommand ''q'' ''b'')]\<rparr>"
    by (simp add: sends_def send_def accepting_def w0_def)
  have len: "2 < length ?h"
    by simp
  have acc1: "accepts (failing_at 2) (sends ''q'' (take 2 ?h)) w0"
    by (simp add: accepts_def answered_def sends_def send_def failing_at_def w0_def)
  have rej: "fst (send (failing_at 2) (SendMessageCommand ''q'' (body (?h ! 2)))
                   (after_sends (failing_at 2) (sends ''q'' (take 2 ?h)) w0))
               = Inl (Rejected ''NetworkingError'')"
    by (simp add: sends_def send_def failing_at_def w0_def)
  have aft1: "after_sends (failing_at 2) (sends ''q'' (take (Suc 2) ?h)) w0
      = \<lparr>now = 3000, sent = [(0, SendMessageCommand ''q'' ''a''),
                             (1000, SendMessageCommand ''q'' ''b''),
                             (2000, SendMessageCommand ''q'' ''c'')]\<rparr>"
    by (simp add: sends_def send_def failing_at_def w0_def)
  note t = testLoadPerformance_groups [of 5 2 iso0 accepting "''q''" ?g w0 0
      "Rejected ''NetworkingError''"]
  note u = testLoadPerformance_groups [of 5 2 iso0 "failing_at 2" "''q''" ?h w0 2
      "Rejected ''NetworkingError''"]
  from t have a: "\<exists>groups. testLoadPerformance_batches iso0 5 2 = Some groups \<and>
       concat groups = testLoadPerformance_messages iso0 5 \<and>
       groups \<noteq> [] \<and> length groups \<le> 2 \<and>
       1 \<le> length (last groups) \<and> length (last groups) \<le> 3"
    by (auto simp: c)
  from t [THEN conjunct2, THEN conjunct1] acc
  have b: "sendMessages accepting ''q'' ?g w0
     = (Inr [''0'', ''1''],
        \<lparr>now = 100, sent = [(0, SendMessageCommand ''q'' ''a''),
                            (50, SendMessageCommand ''q'' ''b'')]\<rparr>)"
    by (simp only: ids aft)
  from u [THEN conjunct2, THEN conjunct2] len acc1 rej
  have d: "sendMessages (failing_at 2) ''q'' ?h w0
     = (Inl (Rejected ''NetworkingError''),
        \<lparr>now = 3000, sent = [(0, SendMessageCommand ''q'' ''a''),
                             (1000, SendMessageCommand ''q'' ''b''),
                             (2000, SendMessageCommand ''q'' ''c'')]\<rparr>)"
    by (simp only: aft1)
  from a acc b d show ?thesis
    by simp
qed

subsection \<open>toDynamoFormat\<close>

lemma put_fresh:
  "key \<notin> fst ` set result \<Longrightarrow> put key a result = result @ [(key, a)]"
  by (induction result) auto

lemma assign_fresh:
  "key \<noteq> ''__proto__'' \<Longrightarrow> key \<notin> fst ` set result \<Longrightarrow>
     assign key a result = result @ [(key, a)]"
  by (simp add: assign_def put_fresh)

lemma toDynamoFormat_map_elements:
  "toDynamoFormat_map ts vs = map (element_attr ts) vs"
proof (induction vs)
  case Nil
  show ?case by (simp add: toDynamoFormat_map.simps)
next
  case (Cons v vs)
  then show ?case
    by (cases v) (simp_all add: toDynamoFormat_map.simps element_attr_def)
qed

lemma toDynamoFormat_for_fields:
  "distinct (map fst data) \<Longrightarrow> fst ` set data \<inter> fst ` set result = {} \<Longrightarrow>
     toDynamoFormat_for ts data result =
       result @ map (\<lambda>(k, v). (k, field_attr ts v)) (filter has_entry data)"
proof (induction data arbitrary: result)
  case Nil
  show ?case by (simp add: toDynamoFormat_for.simps)
next
  case (Cons kv rest)
  obtain key v where kv: "kv = (key, v)"
    by (cases kv)
  let ?step = "case v of
          JString s \<Rightarrow> assign key (S s) result
        | JNumber n \<Rightarrow> assign key (N (ts n)) result
        | JBoolean b \<Rightarrow> assign key (BOOL b) result
        | JArray vs \<Rightarrow> assign key (L (toDynamoFormat_map ts vs)) result
        | JObject kvs \<Rightarrow> assign key (M (toDynamoFormat ts kvs)) result
        | JNull \<Rightarrow> assign key (NULL True) result
        | JUndefined \<Rightarrow> assign key (NULL True) result
        | JOther \<Rightarrow> result"
  have unfold: "toDynamoFormat_for ts (kv # rest) result = toDynamoFormat_for ts rest ?step"
    by (simp only: kv toDynamoFormat_for.simps)
  from Cons.prems kv have fresh: "key \<notin> fst ` set result"
    by auto
  from Cons.prems have d: "distinct (map fst rest)"
    by simp
  show ?case
  proof (cases "has_entry kv")
    case True
    with kv have k: "key \<noteq> ''__proto__''" and v: "v \<noteq> JOther"
      by (simp_all add: has_entry_def)
    have "?step = assign key (field_attr ts v) result"
      using v
      by (cases v) (simp_all add: field_attr_def element_attr_def toDynamoFormat_map_elements)
    then have step: "?step = result @ [(key, field_attr ts v)]"
      using k fresh by (simp add: assign_fresh)
    have "fst ` set rest \<inter> fst ` set (result @ [(key, field_attr ts v)]) = {}"
      using Cons.prems kv by auto
    with d have "toDynamoFormat_for ts rest (result @ [(key, field_attr ts v)]) =
        (result @ [(key, field_attr ts v)]) @
          map (\<lambda>(k, v). (k, field_attr ts v)) (filter has_entry rest)"
      by (rule Cons.IH)
    with unfold step True kv show ?thesis
      by simp
  next
    case False
    with kv have "key = ''__proto__'' \<or> v = JOther"
      by (auto simp: has_entry_def)
    then have step: "?step = result"
      by (cases v) (auto simp: assign_def)
    have "fst ` set rest \<inter> fst ` set result = {}"
      using Cons.prems by auto
    with d have "toDynamoFormat_for ts rest result =
        result @ map (\<lambda>(k, v). (k, field_attr ts v)) (filter has_entry rest)"
      by (rule Cons.IH)
    with unfold step False show ?thesis
      by simp
  qed
qed

lemma toDynamoFormat_fields:
  "distinct (map fst data) \<Longrightarrow>
     toDynamoFormat ts data = map (\<lambda>(k, v). (k, field_attr ts v)) (filter has_entry data)"
  using toDynamoFormat_for_fields [of data "[]" ts] by (simp add: toDynamoFormat.simps)

lemma table_attr:
  "in_table v \<Longrightarrow>
     field_attr ts v = tag_table ts v \<and> (\<not> is_list v \<longrightarrow> element_attr ts v = tag_table ts v)"
proof (induction v)
  case (JArray vs)
  have "map (element_attr ts) vs = map (tag_table ts) vs"
  proof (rule map_cong [OF refl])
    fix x assume x: "x \<in> set vs"
    with JArray.prems have "in_table x" "\<not> is_list x"
      by (simp_all add: list_all_iff)
    with JArray.IH [OF x] show "element_attr ts x = tag_table ts x"
      by simp
  qed
  then show ?case
    by (simp add: field_attr_def is_list_def)
next
  case (JObject kvs)
  from JObject.prems have d: "distinct (map fst kvs)"
    and all: "\<forall>x \<in> set kvs. fst x \<noteq> ''__proto__'' \<and> in_table (snd x)"
    by (auto simp: list_all_iff)
  have keep: "filter has_entry kvs = kvs"
  proof (rule filter_True, rule ballI)
    fix x assume "x \<in> set kvs"
    with all have "fst x \<noteq> ''__proto__''" "in_table (snd x)"
      by simp_all
    then show "has_entry x"
      by (cases "snd x") (simp_all add: has_entry_def)
  qed
  have "map (\<lambda>(k, v). (k, field_attr ts v)) kvs = map (\<lambda>(k, v). (k, tag_table ts v)) kvs"
  proof (rule map_cong [OF refl])
    fix x assume x: "x \<in> set kvs"
    obtain k v where kv: "x = (k, v)"
      by (cases x)
    with x all have "in_table v"
      by auto
    moreover from kv have "v \<in> Basic_BNFs.snds x"
      by simp
    ultimately have "field_attr ts v = tag_table ts v"
      using JObject.IH [OF x] by simp
    with kv show "(case x of (k, v) \<Rightarrow> (k, field_attr ts v))
        = (case x of (k, v) \<Rightarrow> (k, tag_table ts v))"
      by simp
  qed
  with toDynamoFormat_fields [OF d, of ts] keep
  have "toDynamoFormat ts kvs = map (\<lambda>(k, v). (k, tag_table ts v)) kvs"
    by simp
  then show ?case
    by (simp add: field_attr_def element_attr_def)
qed (simp_all add: field_attr_def element_attr_def)

lemma toDynamoFormat_table:
  assumes "record_in_table data"
  shows "toDynamoFormat ts data = tag_record ts data"
proof -
  from assms have "in_table (JObject data)"
    by (simp add: record_in_table_def)
  then have "field_attr ts (JObject data) = tag_table ts (JObject data)"
    using table_attr by blast
  then show ?thesis
    by (simp add: field_attr_def element_attr_def tag_record_def)
qed

lemma decode_tag_table:
  "in_table v \<Longrightarrow> no_undefined v \<Longrightarrow> reads_back ts parse v \<Longrightarrow>
     decode parse (tag_table ts v) = v"
proof (induction v)
  case (JArray vs)
  have "map (decode parse \<circ> tag_table ts) vs = vs"
  proof (rule map_idI)
    fix x assume x: "x \<in> set vs"
    with JArray.prems have "in_table x" "no_undefined x" "reads_back ts parse x"
      by (simp_all add: list_all_iff)
    with x show "(decode parse \<circ> tag_table ts) x = x"
      by (simp add: JArray.IH)
  qed
  then show ?case by simp
next
  case (JObject kvs)
  have "map ((\<lambda>(k, a). (k, decode parse a)) \<circ> (\<lambda>(k, v). (k, tag_table ts v))) kvs = kvs"
  proof (rule map_idI)
    fix x assume x: "x \<in> set kvs"
    obtain k v where kv: "x = (k, v)"
      by (cases x)
    with x JObject.prems have "in_table v" "no_undefined v" "reads_back ts parse v"
      by (auto simp: list_all_iff)
    moreover from kv have "v \<in> Basic_BNFs.snds x"
      by simp
    ultimately have "decode parse (tag_table ts v) = v"
      using x by (intro JObject.IH)
    with kv show "((\<lambda>(k, a). (k, decode parse a)) \<circ> (\<lambda>(k, v). (k, tag_table ts v))) x = x"
      by simp
  qed
  then show ?case by simp
qed simp_all

lemma fromDynamoFormat_tag_record:
  assumes "list_all (\<lambda>(k, v). in_table v \<and> no_undefined v \<and> reads_back ts parse v) data"
  shows "fromDynamoFormat parse (tag_record ts data) = data"
proof -
  have "map ((\<lambda>(k, a). (k, decode parse a)) \<circ> (\<lambda>(k, v). (k, tag_table ts v))) data = data"
  proof (rule map_idI)
    fix x assume x: "x \<in> set data"
    obtain k v where kv: "x = (k, v)"
      by (cases x)
    with x assms have "in_table v" "no_undefined v" "reads_back ts parse v"
      by (auto simp: list_all_iff)
    then have "decode parse (tag_table ts v) = v"
      by (rule decode_tag_table)
    with kv show "((\<lambda>(k, a). (k, decode parse a)) \<circ> (\<lambda>(k, v). (k, tag_table ts v))) x = x"
      by simp
  qed
  then show ?thesis
    by (simp add: fromDynamoFormat_def tag_record_def)
qed

lemma distinct_index_keys: "distinct (map show_nat [0..<n])"
  by (simp add: distinct_map inj_on_def show_nat_inj)

lemma digit_not_underscore: "d < 10 \<Longrightarrow> digit d \<noteq> CHR ''_''"
  using of_char_digit [of d]
  by (auto simp: of_char_eq_iff [symmetric, where ?'a = nat] simp del: of_char_eq_iff)

lemma show_nat_not_proto: "show_nat n \<noteq> ''__proto__''"
proof
  assume "show_nat n = ''__proto__''"
  then have "CHR ''_'' \<in> set (show_nat n)"
    by simp
  then obtain d where "d < 10" "CHR ''_'' = digit d"
    using show_nat_digits by blast
  then show False
    using digit_not_underscore [of d] by simp
qed

lemma array_entries_table:
  assumes "list_all in_table ws"
  shows "toDynamoFormat ts (array_entries ws)
           = zip (map show_nat [0..<length ws]) (map (tag_table ts) ws)"
proof -
  have keys: "map fst (array_entries ws) = map show_nat [0..<length ws]"
    by (simp add: array_entries_def)
  have "record_in_table (array_entries ws)"
    unfolding record_in_table_def in_table.simps list_all_iff
  proof (intro conjI ballI)
    show "distinct (map fst (array_entries ws))"
      by (simp add: keys distinct_index_keys)
  next
    fix x assume x: "x \<in> set (array_entries ws)"
    obtain k v where kv: "x = (k, v)"
      by (cases x)
    with x have "k \<in> set (map show_nat [0..<length ws])" "v \<in> set ws"
      by (auto simp: array_entries_def dest: set_zip_leftD set_zip_rightD)
    with assms have "k \<noteq> ''__proto__''" "in_table v"
      by (auto simp: list_all_iff show_nat_not_proto)
    with kv show "case x of (k, v) \<Rightarrow> k \<noteq> ''__proto__'' \<and> in_table v"
      by simp
  qed
  then have "toDynamoFormat ts (array_entries ws) = tag_record ts (array_entries ws)"
    by (rule toDynamoFormat_table)
  also have "\<dots> = zip (map show_nat [0..<length ws]) (map (tag_table ts) ws)"
    by (simp add: tag_record_def array_entries_def zip_map2)
  finally show ?thesis .
qed

text \<open>
  C6, as claimed: every field is encoded by the tag table, lists element by element under
  the list tag. A list that is an element of a list is not: it is encoded under the map
  tag, as a record keyed by its indices.
\<close>

theorem toDynamoFormat_nested_list_counterexample:
  "toDynamoFormat show_int [(''matrix'', JArray [JArray [JNumber 1, JNumber 2]])]
     = [(''matrix'', L [M [(''0'', N ''1''), (''1'', N ''2'')]])] \<and>
   tag_record show_int [(''matrix'', JArray [JArray [JNumber 1, JNumber 2]])]
     = [(''matrix'', L [L [N ''1'', N ''2'']])]"
  by (simp add: toDynamoFormat.simps toDynamoFormat_for.simps toDynamoFormat_map.simps
      assign_def tag_record_def array_entries_def show_int_def show_nat.simps digit_def)

text \<open>
  C6, amended. First part: of a record with distinct keys, as every record of JavaScript
  is, \<open>toDynamoFormat\<close> encodes the fields one by one and in order, each under its own key
  by its kind: a field that is a list element by element under the list tag, where an
  element that is itself a list goes under the map tag as the record of its entries under
  their indices; a field whose key is \<open>__proto__\<close> and a field whose value is of no kind of
  the table get no entry. Second part: a list \<open>ws\<close> of values of the table that is an
  element of a list, at any place \<open>i\<close> of it, is encoded under the map tag as the record
  with the keys \<open>0\<close>, \<open>1\<close>, ... and the elements of \<open>ws\<close> encoded by the table. Third part:
  on the records of the table (values of the table's kinds, distinct keys, no key
  \<open>__proto__\<close>, no list directly inside a list) the encoding is the tag table's, at every
  depth. Fourth part: on such records with no absent value, and whose numbers are read back
  from their text, the encoding reads back to the record itself: the primitive values, and
  the lists and records nested in them.
\<close>

theorem toDynamoFormat_tag_table:
  "(distinct (map fst data) \<longrightarrow>
      toDynamoFormat ts data = map (\<lambda>(k, v). (k, field_attr ts v)) (filter has_entry data)) \<and>
   (key \<noteq> ''__proto__'' \<and> i < length vs \<and> vs ! i = JArray ws \<and> list_all in_table ws \<longrightarrow>
      (\<exists>as. toDynamoFormat ts [(key, JArray vs)] = [(key, L as)] \<and> length as = length vs \<and>
            as ! i = M (zip (map show_nat [0..<length ws]) (map (tag_table ts) ws)))) \<and>
   (record_in_table data \<longrightarrow> toDynamoFormat ts data = tag_record ts data) \<and>
   (record_in_table data \<and> list_all (\<lambda>(k, v). no_undefined v \<and> reads_back ts parse v) data
      \<longrightarrow> fromDynamoFormat parse (toDynamoFormat ts data) = data)"
proof (intro conjI impI)
  assume "distinct (map fst data)"
  then show "toDynamoFormat ts data
      = map (\<lambda>(k, v). (k, field_attr ts v)) (filter has_entry data)"
    by (rule toDynamoFormat_fields)
next
  assume a: "key \<noteq> ''__proto__'' \<and> i < length vs \<and> vs ! i = JArray ws \<and> list_all in_table ws"
  then have "toDynamoFormat ts (array_entries ws)
           = zip (map show_nat [0..<length ws]) (map (tag_table ts) ws)"
    by (intro array_entries_table) simp
  with a have "map (element_attr ts) vs ! i
      = M (zip (map show_nat [0..<length ws]) (map (tag_table ts) ws))"
    by (simp add: element_attr_def)
  moreover have "toDynamoFormat ts [(key, JArray vs)] = [(key, L (map (element_attr ts) vs))]"
    using a toDynamoFormat_fields [of "[(key, JArray vs)]" ts]
    by (simp add: has_entry_def field_attr_def)
  ultimately show "\<exists>as. toDynamoFormat ts [(key, JArray vs)] = [(key, L as)] \<and>
      length as = length vs \<and>
      as ! i = M (zip (map show_nat [0..<length ws]) (map (tag_table ts) ws))"
    by (intro exI [of _ "map (element_attr ts) vs"]) simp
next
  assume "record_in_table data"
  then show "toDynamoFormat ts data = tag_record ts data"
    by (rule toDynamoFormat_table)
next
  assume a: "record_in_table data \<and>
    list_all (\<lambda>(k, v). no_undefined v \<and> reads_back ts parse v) data"
  then have "list_all (\<lambda>(k, v). in_table v \<and> no_undefined v \<and> reads_back ts parse v) data"
    by (auto simp: record_in_table_def list_all_iff)
  then have "fromDynamoFormat parse (tag_record ts data) = data"
    by (rule fromDynamoFormat_tag_record)
  with a show "fromDynamoFormat parse (toDynamoFormat ts data) = data"
    by (simp add: toDynamoFormat_table)
qed

theorem toDynamoFormat_tag_table_witness:
  "toDynamoFormat show_int odd_item
     = [(''id'', S ''a''),
        (''m'', L [M [(''0'', N ''1''), (''1'', N ''2'')], N ''3'', NULL True])] \<and>
   (\<exists>as. toDynamoFormat show_int [(''matrix'', JArray [JArray [JNumber 1, JNumber 2]])]
            = [(''matrix'', L as)] \<and>
         length as = 1 \<and> as ! 0 = M [(''0'', N ''1''), (''1'', N ''2'')]) \<and>
   record_in_table item \<and>
   toDynamoFormat show_int item
     = [(''poc_id'', S ''demo1''), (''age'', N ''42''), (''active'', BOOL True),
        (''note'', NULL True), (''tags'', L [S ''a'', N ''-7'']),
        (''address'', M [(''zip'', N ''1000'')])] \<and>
   fromDynamoFormat parse_int (toDynamoFormat show_int item) = item"
proof -
  let ?ws = "[JNumber 1, JNumber 2] :: int jsval list"
  let ?vs = "[JArray ?ws]"
  have h0: "distinct (map fst odd_item)"
    by (simp add: odd_item_def)
  have f: "map (\<lambda>(k, v). (k, field_attr show_int v)) (filter has_entry odd_item)
     = [(''id'', S ''a''),
        (''m'', L [M [(''0'', N ''1''), (''1'', N ''2'')], N ''3'', NULL True])]"
    by (simp add: odd_item_def has_entry_def field_attr_def element_attr_def
        toDynamoFormat.simps toDynamoFormat_for.simps assign_def array_entries_def
        show_int_def show_nat.simps digit_def)
  have h1: "record_in_table item"
    by (simp add: record_in_table_def item_def is_list_def)
  have h2: "list_all (\<lambda>(k, v). no_undefined v \<and> reads_back show_int parse_int v) item"
    by (simp add: item_def parse_show_int)
  have h3: "''matrix'' \<noteq> ''__proto__'' \<and> 0 < length ?vs \<and> ?vs ! 0 = JArray ?ws \<and>
      list_all in_table ?ws"
    by simp
  have t: "tag_record show_int item
     = [(''poc_id'', S ''demo1''), (''age'', N ''42''), (''active'', BOOL True),
        (''note'', NULL True), (''tags'', L [S ''a'', N ''-7'']),
        (''address'', M [(''zip'', N ''1000'')])]"
    by (simp add: tag_record_def item_def show_int_def show_nat.simps digit_def)
  have z: "zip (map show_nat [0..<length ?ws]) (map (tag_table show_int) ?ws)
     = [(''0'', N ''1''), (''1'', N ''2'')]"
    by (simp add: upt_rec show_int_def show_nat.simps digit_def)
  note u = toDynamoFormat_tag_table [of odd_item show_int "''matrix''" 0 ?vs ?ws parse_int]
  note w = toDynamoFormat_tag_table [of item show_int "''matrix''" 0 ?vs ?ws parse_int]
  from u [THEN conjunct1] h0 have a: "toDynamoFormat show_int odd_item
     = [(''id'', S ''a''),
        (''m'', L [M [(''0'', N ''1''), (''1'', N ''2'')], N ''3'', NULL True])]"
    by (simp only: f)
  from w [THEN conjunct2, THEN conjunct1] h3
  have b: "\<exists>as. toDynamoFormat show_int [(''matrix'', JArray ?vs)] = [(''matrix'', L as)] \<and>
         length as = 1 \<and> as ! 0 = M [(''0'', N ''1''), (''1'', N ''2'')]"
    unfolding z by simp
  from w [THEN conjunct2, THEN conjunct2, THEN conjunct1] h1
  have c: "toDynamoFormat show_int item = tag_record show_int item"
    by blast
  from w [THEN conjunct2, THEN conjunct2, THEN conjunct2] h1 h2
  have d: "fromDynamoFormat parse_int (toDynamoFormat show_int item) = item"
    by blast
  from a b h1 c d show ?thesis
    unfolding t by blast
qed

end
